theory Spec2Isabelle
  imports Main "HOL-Library.Multiset"
begin

section \<open>Tokens and the lexer\<close>

text \<open>
  The token kinds of the fallback lexer, in the order of the Go \<open>iota\<close> block, so that
  the zero value of \<open>TokenType\<close> is \<open>TokenIdentifier\<close>.
\<close>

datatype TokenType =
  TokenIdentifier | TokenKeyword | TokenOperator | TokenPunctuation | TokenNumber | TokenWhitespace

record Token =
  Type :: TokenType
  Value :: string
  Line :: int

text \<open>The zero value of the struct, which is what \<open>Parser.Current\<close> holds before the first \<open>advance\<close>.\<close>

definition zeroToken :: Token where
  "zeroToken = \<lparr>Type = TokenIdentifier, Value = [], Line = 0\<rparr>"

text \<open>
  The three lookup tables of \<open>tokenize\<close>, as the keys of the Go map literals. The
  table \<open>keywords\<close> is \<open>keywordsTable\<close> here, its own name being a reserved word.
\<close>

definition keywordsTable :: "string list" where
  "keywordsTable = [''for'', ''while'', ''if'', ''function'', ''uint'', ''public'', ''mapping'', ''returns'']"

definition operators :: "string list" where
  "operators = [''='', ''.'', '';'', ''<'', ''++'']"

definition punctuation :: "string list" where
  "punctuation = [''('', '')'', ''{'', ''}'']"

text \<open>
  \<open>strings.Split(source, "\n")\<close>: the pieces between line feeds; a text with \<open>n\<close> line
  feeds has \<open>n + 1\<close> pieces, the empty text has the single piece \<open>""\<close>.
\<close>

fun Split :: "string \<Rightarrow> string list" where
  "Split [] = [[]]"
| "Split (c # cs) =
     (if c = CHR 0x0A then [] # Split cs
      else (case Split cs of [] \<Rightarrow> [[c]] | l # ls \<Rightarrow> (c # l) # ls))"

text \<open>
  \<open>strings.TrimSpace\<close> removes the leading and the trailing runes that \<open>unicode.IsSpace\<close>
  accepts. Go strings are byte sequences, so the runes are listed by their UTF-8
  encodings: the six ASCII ones, U+0085, U+00A0, U+1680, U+2000 to U+200A, U+2028,
  U+2029, U+202F, U+205F and U+3000. UTF-8 is prefix free and self-synchronising, so
  matching these byte sequences at either end is what decoding a rune there gives.
\<close>

definition spaceRunes :: "string list" where
  "spaceRunes =
    [[CHR 0x09], [CHR 0x0A], [CHR 0x0B], [CHR 0x0C], [CHR 0x0D], [CHR 0x20],
     [CHR 0xC2, CHR 0x85], [CHR 0xC2, CHR 0xA0],
     [CHR 0xE1, CHR 0x9A, CHR 0x80],
     [CHR 0xE2, CHR 0x80, CHR 0x80], [CHR 0xE2, CHR 0x80, CHR 0x81],
     [CHR 0xE2, CHR 0x80, CHR 0x82], [CHR 0xE2, CHR 0x80, CHR 0x83],
     [CHR 0xE2, CHR 0x80, CHR 0x84], [CHR 0xE2, CHR 0x80, CHR 0x85],
     [CHR 0xE2, CHR 0x80, CHR 0x86], [CHR 0xE2, CHR 0x80, CHR 0x87],
     [CHR 0xE2, CHR 0x80, CHR 0x88], [CHR 0xE2, CHR 0x80, CHR 0x89],
     [CHR 0xE2, CHR 0x80, CHR 0x8A],
     [CHR 0xE2, CHR 0x80, CHR 0xA8], [CHR 0xE2, CHR 0x80, CHR 0xA9],
     [CHR 0xE2, CHR 0x80, CHR 0xAF], [CHR 0xE2, CHR 0x81, CHR 0x9F],
     [CHR 0xE3, CHR 0x80, CHR 0x80]]"

text \<open>The length of the first listed byte sequence that starts \<open>s\<close>, or 0.\<close>

fun leading :: "string list \<Rightarrow> string \<Rightarrow> nat" where
  "leading [] s = 0"
| "leading (r # rs) s = (if r \<noteq> [] \<and> take (length r) s = r then length r else leading rs s)"

function trimStart :: "string list \<Rightarrow> string \<Rightarrow> string" where
  "trimStart rs s = (if leading rs s = 0 then s else trimStart rs (drop (leading rs s) s))"
  by pat_completeness auto

lemma leading_le: "leading rs s \<le> length s"
proof (induction rs)
  case Nil
  show ?case by simp
next
  case (Cons r rs)
  have "length r \<le> length s" if "take (length r) s = r"
  proof -
    from that have "length (take (length r) s) = length r" by simp
    then show ?thesis by (simp add: min_def split: if_splits)
  qed
  with Cons show ?case by simp
qed

termination trimStart
proof (relation "measure (\<lambda>(rs, s). length s)")
  show "wf (measure (\<lambda>(rs, s). length s))" by simp
next
  fix rs :: "string list" and s :: string
  assume "leading rs s \<noteq> 0"
  moreover have "leading rs s \<le> length s" by (rule leading_le)
  ultimately show "((rs, drop (leading rs s) s), (rs, s)) \<in> measure (\<lambda>(rs, s). length s)"
    by simp
qed

definition TrimSpace :: "string \<Rightarrow> string" where
  "TrimSpace s = rev (trimStart (map rev spaceRunes) (rev (trimStart spaceRunes s)))"

text \<open>
  \<open>string(line[i])\<close> converts one byte to a string holding the UTF-8 encoding of the
  code point of that number: a byte below 0x80 gives itself, a byte \<open>b\<close> from 0x80 on
  gives the two bytes \<open>0xC0 + b div 64\<close> and \<open>0x80 + b mod 64\<close>.
\<close>

definition byteString :: "char \<Rightarrow> string" where
  "byteString c =
     (if (of_char c :: nat) < 128 then [c]
      else [char_of (192 + (of_char c :: nat) div 64), char_of (128 + (of_char c :: nat) mod 64)])"

text \<open>
  \<open>classifyToken\<close>. The test \<open>fmt.Sscanf(value, "%d", new(int))\<close> belongs to the Go
  library, and what it accepts depends on the platform's \<open>int\<close>; it is the parameter
  \<open>scanInt\<close>, true when the call returns no error.
\<close>

definition classifyToken :: "(string \<Rightarrow> bool) \<Rightarrow> string \<Rightarrow> int \<Rightarrow> string list \<Rightarrow> Token" where
  "classifyToken scanInt v ln kws =
     (if v \<in> set kws then \<lparr>Type = TokenKeyword, Value = v, Line = ln\<rparr>
      else if scanInt v then \<lparr>Type = TokenNumber, Value = v, Line = ln\<rparr>
      else \<lparr>Type = TokenIdentifier, Value = v, Line = ln\<rparr>)"

text \<open>
  The pending buffer \<open>current\<close> is emitted when it is not empty; the source writes this
  out three times inside \<open>tokenize\<close>.
\<close>

definition flush :: "(string \<Rightarrow> bool) \<Rightarrow> int \<Rightarrow> Token list \<times> string \<Rightarrow> Token list \<times> string" where
  "flush scanInt ln st =
     (case st of (tokens, current) \<Rightarrow>
        if current \<noteq> [] then (tokens @ [classifyToken scanInt current ln keywordsTable], [])
        else (tokens, current))"

text \<open>The loop over the bytes of one trimmed line; \<open>ln\<close> is \<open>lineNum + 1\<close>.\<close>

fun scanLine :: "(string \<Rightarrow> bool) \<Rightarrow> int \<Rightarrow> string \<Rightarrow> Token list \<times> string \<Rightarrow> Token list \<times> string" where
  "scanLine scanInt ln [] st = st"
| "scanLine scanInt ln (c # cs) st =
     (let char = byteString c in
      if char = '' '' \<or> char = [CHR 0x09] then scanLine scanInt ln cs (flush scanInt ln st)
      else if char \<in> set operators \<or> char \<in> set punctuation then
        (let tokType = (if char \<in> set punctuation then TokenPunctuation else TokenOperator) in
         scanLine scanInt ln cs
           (fst (flush scanInt ln st) @ [\<lparr>Type = tokType, Value = char, Line = ln\<rparr>], []))
      else scanLine scanInt ln cs (fst st, snd st @ char))"

text \<open>The loop over the lines; \<open>lineNum\<close> is the 0-based index of the line.\<close>

fun tokenizeLines :: "(string \<Rightarrow> bool) \<Rightarrow> int \<Rightarrow> string list \<Rightarrow> Token list \<Rightarrow> Token list" where
  "tokenizeLines scanInt lineNum [] tokens = tokens"
| "tokenizeLines scanInt lineNum (l # ls) tokens =
     (let line = TrimSpace l in
      if line = [] then tokenizeLines scanInt (lineNum + 1) ls tokens
      else tokenizeLines scanInt (lineNum + 1) ls
             (fst (flush scanInt (lineNum + 1) (scanLine scanInt (lineNum + 1) line (tokens, [])))))"

definition tokenize :: "(string \<Rightarrow> bool) \<Rightarrow> string \<Rightarrow> Token list" where
  "tokenize scanInt source = tokenizeLines scanInt 0 (Split source) []"

section \<open>The fallback parser\<close>

text \<open>
  A node of the simplified tree. The selectors carry an \<open>N\<close> because the token record
  already owns \<open>Type\<close>, \<open>Value\<close> and \<open>Line\<close>. A \<open>*Node\<close> that may be \<open>nil\<close> is a
  \<open>Node option\<close>.
\<close>

datatype Node = Node (NType: string) (NValue: string) (Children: "Node list") (NLine: int)

record Parser =
  Tokens :: "Token list"
  Pos :: nat
  Source :: string
  Current :: Token

definition NewParser :: "(string \<Rightarrow> bool) \<Rightarrow> string \<Rightarrow> Parser" where
  "NewParser scanInt source =
     \<lparr>Tokens = tokenize scanInt source, Pos = 0, Source = source, Current = zeroToken\<rparr>"

text \<open>\<open>advance\<close> reads \<open>Tokens[Pos]\<close> only under the guard, and does nothing at the end of the stream.\<close>

definition advance :: "Parser \<Rightarrow> Parser" where
  "advance p =
     (if Pos p < length (Tokens p) then p\<lparr>Current := Tokens p ! Pos p, Pos := Pos p + 1\<rparr> else p)"

lemma Tokens_advance [simp]: "Tokens (advance p) = Tokens p"
  by (simp add: advance_def)

lemma Pos_advance_mono: "Pos p \<le> Pos (advance p)"
  by (simp add: advance_def)

lemma Pos_advance_less: "Pos p < length (Tokens p) \<Longrightarrow> Pos (advance p) = Pos p + 1"
  by (simp add: advance_def)

lemma Pos_advance_bound: "Pos p \<le> length (Tokens p) \<Longrightarrow> Pos (advance p) \<le> length (Tokens p)"
  by (simp add: advance_def)

text \<open>
  The header loop \<open>for p.Current.Value != ")" && p.Pos < len(p.Tokens) { p.advance() }\<close>,
  which \<open>parseLoop\<close>, \<open>parseIfStatement\<close> and \<open>parseFunction\<close> all contain.
\<close>

function skipHeader :: "Parser \<Rightarrow> Parser" where
  "skipHeader p =
     (if Value (Current p) \<noteq> '')'' \<and> Pos p < length (Tokens p) then skipHeader (advance p) else p)"
  by pat_completeness auto
termination
  by (relation "measure (\<lambda>p. length (Tokens p) - Pos p)") (auto simp: advance_def)

declare skipHeader.simps [simp del]

lemma Tokens_skipHeader [simp]: "Tokens (skipHeader p) = Tokens p"
  by (induction p rule: skipHeader.induct) (subst skipHeader.simps, simp)

lemma Pos_skipHeader_mono: "Pos p \<le> Pos (skipHeader p)"
proof (induction p rule: skipHeader.induct)
  case (1 p)
  show ?case
  proof (cases "Value (Current p) \<noteq> '')'' \<and> Pos p < length (Tokens p)")
    case True
    with 1 have "Pos (advance p) \<le> Pos (skipHeader (advance p))" by simp
    moreover have "skipHeader p = skipHeader (advance p)"
      using True by (subst skipHeader.simps) simp
    ultimately show ?thesis using Pos_advance_mono [of p] by simp
  next
    case False
    then show ?thesis by (subst skipHeader.simps) auto
  qed
qed

text \<open>\<open>parseVariableAccess\<close> never returns \<open>nil\<close>, so its result is a plain node.\<close>

definition parseVariableAccess :: "Parser \<Rightarrow> Node \<times> Parser" where
  "parseVariableAccess p =
     (let node = Node ''MemberAccess'' (Value (Current p)) [] (Line (Current p));
          p1 = advance p
      in if Type (Current p1) = TokenOperator \<and> Value (Current p1) = ''.'' then
           (let p2 = advance p1
            in if Type (Current p2) = TokenIdentifier then
                 (Node ''MemberAccess'' (Value (Current p))
                    [Node ''Identifier'' (Value (Current p2)) [] (Line (Current p2))]
                    (Line (Current p)),
                  advance p2)
               else (node, p2))
         else (node, p1))"

lemma Tokens_parseVariableAccess [simp]: "Tokens (snd (parseVariableAccess p)) = Tokens p"
  by (simp add: parseVariableAccess_def Let_def)

lemma Pos_parseVariableAccess_mono: "Pos (advance p) \<le> Pos (snd (parseVariableAccess p))"
proof -
  have a: "Pos (advance p) \<le> Pos (advance (advance p))" by (rule Pos_advance_mono)
  have b: "Pos (advance (advance p)) \<le> Pos (advance (advance (advance p)))"
    by (rule Pos_advance_mono)
  from a b show ?thesis by (auto simp: parseVariableAccess_def Let_def)
qed

text \<open>
  The block loop of \<open>parseLoop\<close> and of \<open>parseIfStatement\<close> (the same text in both):
  an identifier starts a variable access, every other token is passed over, and one
  more \<open>advance\<close> ends each round.
\<close>

function blockLoop :: "Parser \<Rightarrow> Node list \<Rightarrow> Node list \<times> Parser" where
  "blockLoop p kids =
     (if Value (Current p) \<noteq> ''}'' \<and> Pos p < length (Tokens p) then
        (if Type (Current p) = TokenIdentifier then
           blockLoop (advance (snd (parseVariableAccess p))) (kids @ [fst (parseVariableAccess p)])
         else blockLoop (advance p) kids)
      else (kids, p))"
  by pat_completeness auto
termination
proof (relation "measure (\<lambda>(p, kids). length (Tokens p) - Pos p)")
  show "wf (measure (\<lambda>(p, kids). length (Tokens p) - Pos p))" by simp
next
  fix p :: Parser and kids :: "Node list"
  assume c: "Value (Current p) \<noteq> ''}'' \<and> Pos p < length (Tokens p)"
  have "Pos p < Pos (advance p)" using c by (simp add: Pos_advance_less)
  also have "\<dots> \<le> Pos (snd (parseVariableAccess p))" by (rule Pos_parseVariableAccess_mono)
  also have "\<dots> \<le> Pos (advance (snd (parseVariableAccess p)))" by (rule Pos_advance_mono)
  finally have "Pos p < Pos (advance (snd (parseVariableAccess p)))" .
  with c show "((advance (snd (parseVariableAccess p)), kids @ [fst (parseVariableAccess p)]), (p, kids))
      \<in> measure (\<lambda>(p, kids). length (Tokens p) - Pos p)"
    by (simp add: diff_less_mono2)
next
  fix p :: Parser and kids :: "Node list"
  assume c: "Value (Current p) \<noteq> ''}'' \<and> Pos p < length (Tokens p)"
  then have "Pos p < length (Tokens p)" by simp
  then show "((advance p, kids), (p, kids)) \<in> measure (\<lambda>(p, kids). length (Tokens p) - Pos p)"
    by (simp add: Pos_advance_less diff_less_mono2)
qed

declare blockLoop.simps [simp del]

lemma Tokens_blockLoop [simp]: "Tokens (snd (blockLoop p kids)) = Tokens p"
  by (induction p kids rule: blockLoop.induct) (subst blockLoop.simps, simp)

lemma Pos_blockLoop_mono: "Pos p \<le> Pos (snd (blockLoop p kids))"
proof (induction p kids rule: blockLoop.induct)
  case (1 p kids)
  let ?c = "Value (Current p) \<noteq> ''}'' \<and> Pos p < length (Tokens p)"
  let ?q = "snd (parseVariableAccess p)"
  show ?case
  proof (cases ?c)
    case False
    then show ?thesis by (subst blockLoop.simps) auto
  next
    case True
    show ?thesis
    proof (cases "Type (Current p) = TokenIdentifier")
      case True
      have "Pos p \<le> Pos (advance p)" by (rule Pos_advance_mono)
      also have "\<dots> \<le> Pos ?q" by (rule Pos_parseVariableAccess_mono)
      also have "\<dots> \<le> Pos (advance ?q)" by (rule Pos_advance_mono)
      also have "\<dots> \<le> Pos (snd (blockLoop (advance ?q) (kids @ [fst (parseVariableAccess p)])))"
        using 1(1) \<open>?c\<close> True by simp
      finally show ?thesis using \<open>?c\<close> True by (subst blockLoop.simps) simp
    next
      case False
      have "Pos p \<le> Pos (advance p)" by (rule Pos_advance_mono)
      also have "\<dots> \<le> Pos (snd (blockLoop (advance p) kids))"
        using 1(2) \<open>?c\<close> False by simp
      finally show ?thesis using \<open>?c\<close> False by (subst blockLoop.simps) simp
    qed
  qed
qed

definition appendChild :: "Node \<Rightarrow> Node \<Rightarrow> Node" where
  "appendChild n c = Node (NType n) (NValue n) (Children n @ [c]) (NLine n)"

text \<open>
  \<open>parseLoop\<close>: without an opening parenthesis the result is \<open>nil\<close>; otherwise the header
  is passed over, and a block is built when a brace follows.
\<close>

definition parseLoop :: "Node \<Rightarrow> Parser \<Rightarrow> Node option \<times> Parser" where
  "parseLoop node p =
     (if Type (Current p) \<noteq> TokenPunctuation \<or> Value (Current p) \<noteq> ''('' then (None, p)
      else
        (let p3 = advance (skipHeader (advance p))
         in if Type (Current p3) = TokenPunctuation \<and> Value (Current p3) = ''{'' then
              (let p4 = advance p3;
                   r = blockLoop p4 []
               in (Some (appendChild node (Node ''Block'' [] (fst r) (Line (Current p4)))),
                   advance (snd r)))
            else (Some node, p3)))"

definition parseForLoop :: "Parser \<Rightarrow> Node option \<times> Parser" where
  "parseForLoop p = parseLoop (Node ''ForStatement'' [] [] (Line (Current p))) (advance p)"

definition parseWhileLoop :: "Parser \<Rightarrow> Node option \<times> Parser" where
  "parseWhileLoop p = parseLoop (Node ''WhileStatement'' [] [] (Line (Current p))) (advance p)"

text \<open>\<open>parseIfStatement\<close> repeats the text of \<open>parseLoop\<close> after its own \<open>advance\<close>.\<close>

definition parseIfStatement :: "Parser \<Rightarrow> Node option \<times> Parser" where
  "parseIfStatement p =
     (let ifNode = Node ''IfStatement'' [] [] (Line (Current p));
          p0 = advance p
      in if Type (Current p0) \<noteq> TokenPunctuation \<or> Value (Current p0) \<noteq> ''('' then (None, p0)
         else
           (let p3 = advance (skipHeader (advance p0))
            in if Type (Current p3) = TokenPunctuation \<and> Value (Current p3) = ''{'' then
                 (let p4 = advance p3;
                      r = blockLoop p4 []
                  in (Some (appendChild ifNode (Node ''Block'' [] (fst r) (Line (Current p4)))),
                      advance (snd r)))
               else (Some ifNode, p3)))"

lemma Tokens_parseLoop [simp]: "Tokens (snd (parseLoop node p)) = Tokens p"
  by (simp add: parseLoop_def Let_def)

lemma Pos_parseLoop_mono: "Pos p \<le> Pos (snd (parseLoop node p))"
proof -
  let ?p3 = "advance (skipHeader (advance p))"
  have a: "Pos p \<le> Pos ?p3"
    using Pos_advance_mono [of p] Pos_skipHeader_mono [of "advance p"]
      Pos_advance_mono [of "skipHeader (advance p)"] by linarith
  have b: "Pos ?p3 \<le> Pos (advance (snd (blockLoop (advance ?p3) [])))"
    using Pos_advance_mono [of ?p3] Pos_blockLoop_mono [of "advance ?p3" "[]"]
      Pos_advance_mono [of "snd (blockLoop (advance ?p3) [])"] by linarith
  from a b show ?thesis by (auto simp: parseLoop_def Let_def)
qed

lemma Tokens_parseForLoop [simp]: "Tokens (snd (parseForLoop p)) = Tokens p"
  by (simp add: parseForLoop_def)

lemma Pos_parseForLoop_mono: "Pos (advance p) \<le> Pos (snd (parseForLoop p))"
  by (simp add: parseForLoop_def Pos_parseLoop_mono)

lemma Tokens_parseWhileLoop [simp]: "Tokens (snd (parseWhileLoop p)) = Tokens p"
  by (simp add: parseWhileLoop_def)

lemma Pos_parseWhileLoop_mono: "Pos (advance p) \<le> Pos (snd (parseWhileLoop p))"
  by (simp add: parseWhileLoop_def Pos_parseLoop_mono)

lemma Tokens_parseIfStatement [simp]: "Tokens (snd (parseIfStatement p)) = Tokens p"
  by (simp add: parseIfStatement_def Let_def)

lemma Pos_parseIfStatement_mono: "Pos (advance p) \<le> Pos (snd (parseIfStatement p))"
proof -
  let ?p0 = "advance p"
  let ?p3 = "advance (skipHeader (advance ?p0))"
  have a: "Pos ?p0 \<le> Pos ?p3"
    using Pos_advance_mono [of ?p0] Pos_skipHeader_mono [of "advance ?p0"]
      Pos_advance_mono [of "skipHeader (advance ?p0)"] by linarith
  have b: "Pos ?p3 \<le> Pos (advance (snd (blockLoop (advance ?p3) [])))"
    using Pos_advance_mono [of ?p3] Pos_blockLoop_mono [of "advance ?p3" "[]"]
      Pos_advance_mono [of "snd (blockLoop (advance ?p3) [])"] by linarith
  from a b show ?thesis by (auto simp: parseIfStatement_def Let_def)
qed

text \<open>A statement builder's result is appended unless it is \<open>nil\<close>.\<close>

definition appendNotNil :: "Node list \<Rightarrow> Node option \<Rightarrow> Node list" where
  "appendNotNil kids r = (case r of None \<Rightarrow> kids | Some n \<Rightarrow> kids @ [n])"

text \<open>
  One round of the block loop of \<open>parseFunction\<close>, up to its closing \<open>advance\<close>: the
  keywords \<open>for\<close>, \<open>while\<close> and \<open>if\<close> call their builders, any other keyword does
  nothing, an identifier starts a variable access.
\<close>

definition functionBlockItem :: "Parser \<Rightarrow> Node list \<Rightarrow> Node list \<times> Parser" where
  "functionBlockItem p kids =
     (if Type (Current p) = TokenKeyword then
        (if Value (Current p) = ''for'' then
           (appendNotNil kids (fst (parseForLoop p)), snd (parseForLoop p))
         else if Value (Current p) = ''while'' then
           (appendNotNil kids (fst (parseWhileLoop p)), snd (parseWhileLoop p))
         else if Value (Current p) = ''if'' then
           (appendNotNil kids (fst (parseIfStatement p)), snd (parseIfStatement p))
         else (kids, p))
      else if Type (Current p) = TokenIdentifier then
        (kids @ [fst (parseVariableAccess p)], snd (parseVariableAccess p))
      else (kids, p))"

lemma Tokens_functionBlockItem [simp]: "Tokens (snd (functionBlockItem p kids)) = Tokens p"
  by (simp add: functionBlockItem_def)

lemma Pos_functionBlockItem_mono: "Pos p \<le> Pos (snd (functionBlockItem p kids))"
  using Pos_advance_mono [of p] Pos_parseForLoop_mono [of p] Pos_parseWhileLoop_mono [of p]
    Pos_parseIfStatement_mono [of p] Pos_parseVariableAccess_mono [of p]
  by (auto simp: functionBlockItem_def)

function functionBlockLoop :: "Parser \<Rightarrow> Node list \<Rightarrow> Node list \<times> Parser" where
  "functionBlockLoop p kids =
     (if Value (Current p) \<noteq> ''}'' \<and> Pos p < length (Tokens p) then
        functionBlockLoop (advance (snd (functionBlockItem p kids))) (fst (functionBlockItem p kids))
      else (kids, p))"
  by pat_completeness auto
termination
proof (relation "measure (\<lambda>(p, kids). length (Tokens p) - Pos p)")
  show "wf (measure (\<lambda>(p, kids). length (Tokens p) - Pos p))" by simp
next
  fix p :: Parser and kids :: "Node list"
  let ?q = "snd (functionBlockItem p kids)"
  assume c: "Value (Current p) \<noteq> ''}'' \<and> Pos p < length (Tokens p)"
  have "Pos p < Pos (advance ?q)"
  proof (cases "Pos p < Pos ?q")
    case True
    then show ?thesis using Pos_advance_mono [of ?q] by linarith
  next
    case False
    then have "Pos ?q = Pos p" using Pos_functionBlockItem_mono [of p kids] by linarith
    then have "Pos ?q < length (Tokens ?q)" using c by simp
    then show ?thesis using \<open>Pos ?q = Pos p\<close> by (simp add: Pos_advance_less)
  qed
  with c show "((advance ?q, fst (functionBlockItem p kids)), (p, kids))
      \<in> measure (\<lambda>(p, kids). length (Tokens p) - Pos p)"
    by (simp add: diff_less_mono2)
qed

declare functionBlockLoop.simps [simp del]

lemma Tokens_functionBlockLoop [simp]: "Tokens (snd (functionBlockLoop p kids)) = Tokens p"
  by (induction p kids rule: functionBlockLoop.induct) (subst functionBlockLoop.simps, simp)

lemma Pos_functionBlockLoop_mono: "Pos p \<le> Pos (snd (functionBlockLoop p kids))"
proof (induction p kids rule: functionBlockLoop.induct)
  case (1 p kids)
  let ?c = "Value (Current p) \<noteq> ''}'' \<and> Pos p < length (Tokens p)"
  let ?q = "snd (functionBlockItem p kids)"
  show ?case
  proof (cases ?c)
    case False
    then show ?thesis by (subst functionBlockLoop.simps) auto
  next
    case True
    have "Pos p \<le> Pos ?q" by (rule Pos_functionBlockItem_mono)
    also have "\<dots> \<le> Pos (advance ?q)" by (rule Pos_advance_mono)
    also have "\<dots> \<le> Pos (snd (functionBlockLoop (advance ?q) (fst (functionBlockItem p kids))))"
      using 1 True by simp
    finally show ?thesis using True by (subst functionBlockLoop.simps) simp
  qed
qed

text \<open>
  \<open>parseFunction\<close>: an identifier after the keyword is the name, a parameter list in
  parentheses is passed over, and a block is built when a brace follows.
\<close>

definition parseFunction :: "Parser \<Rightarrow> Node option \<times> Parser" where
  "parseFunction p =
     (let ln = Line (Current p);
          p1 = advance p;
          name = (if Type (Current p1) = TokenIdentifier then Value (Current p1) else []);
          p2 = (if Type (Current p1) = TokenIdentifier then advance p1 else p1);
          p3 = (if Type (Current p2) = TokenPunctuation \<and> Value (Current p2) = ''(''
                then advance (skipHeader (advance p2)) else p2)
      in if Type (Current p3) = TokenPunctuation \<and> Value (Current p3) = ''{'' then
           (let p4 = advance p3;
                r = functionBlockLoop p4 []
            in (Some (Node ''FunctionDeclaration'' name
                        [Node ''Block'' [] (fst r) (Line (Current p4))] ln),
                advance (snd r)))
         else (Some (Node ''FunctionDeclaration'' name [] ln), p3))"

lemma Tokens_parseFunction [simp]: "Tokens (snd (parseFunction p)) = Tokens p"
  by (simp add: parseFunction_def Let_def)

lemma Pos_parseFunction_mono: "Pos (advance p) \<le> Pos (snd (parseFunction p))"
proof -
  let ?p1 = "advance p"
  let ?p2 = "if Type (Current ?p1) = TokenIdentifier then advance ?p1 else ?p1"
  let ?p3 = "if Type (Current ?p2) = TokenPunctuation \<and> Value (Current ?p2) = ''(''
             then advance (skipHeader (advance ?p2)) else ?p2"
  have a: "Pos ?p1 \<le> Pos ?p2" using Pos_advance_mono [of ?p1] by simp
  have "Pos ?p2 \<le> Pos (advance (skipHeader (advance ?p2)))"
    using Pos_advance_mono [of ?p2] Pos_skipHeader_mono [of "advance ?p2"]
      Pos_advance_mono [of "skipHeader (advance ?p2)"] by linarith
  then have b: "Pos ?p2 \<le> Pos ?p3" by simp
  have c: "Pos ?p3 \<le> Pos (advance (snd (functionBlockLoop (advance ?p3) [])))"
    using Pos_advance_mono [of ?p3] Pos_functionBlockLoop_mono [of "advance ?p3" "[]"]
      Pos_advance_mono [of "snd (functionBlockLoop (advance ?p3) [])"] by linarith
  have "Pos ?p1 \<le> Pos ?p3" using a b by linarith
  moreover have "Pos ?p1 \<le> Pos (advance (snd (functionBlockLoop (advance ?p3) [])))"
    using a b c by linarith
  ultimately show ?thesis unfolding parseFunction_def Let_def by (simp split: if_splits)
qed

text \<open>One round of the top-level loop of \<open>Parse\<close>.\<close>

definition ParseStep :: "Parser \<Rightarrow> Node list \<Rightarrow> Node list \<times> Parser" where
  "ParseStep p kids =
     (if Type (Current p) = TokenKeyword then
        (if Value (Current p) = ''for'' then
           (appendNotNil kids (fst (parseForLoop p)), snd (parseForLoop p))
         else if Value (Current p) = ''while'' then
           (appendNotNil kids (fst (parseWhileLoop p)), snd (parseWhileLoop p))
         else if Value (Current p) = ''if'' then
           (appendNotNil kids (fst (parseIfStatement p)), snd (parseIfStatement p))
         else if Value (Current p) = ''function'' then
           (appendNotNil kids (fst (parseFunction p)), snd (parseFunction p))
         else (kids, advance p))
      else (kids, advance p))"

lemma Tokens_ParseStep [simp]: "Tokens (snd (ParseStep p kids)) = Tokens p"
  by (simp add: ParseStep_def)

lemma Pos_ParseStep_advance: "Pos (advance p) \<le> Pos (snd (ParseStep p kids))"
  using Pos_parseForLoop_mono [of p] Pos_parseWhileLoop_mono [of p]
    Pos_parseIfStatement_mono [of p] Pos_parseFunction_mono [of p]
  by (auto simp: ParseStep_def)

lemma Pos_ParseStep_less: "Pos p < length (Tokens p) \<Longrightarrow> Pos p < Pos (snd (ParseStep p kids))"
  using Pos_ParseStep_advance [of p kids] by (simp add: advance_def split: if_splits)

function ParseLoop :: "Parser \<Rightarrow> Node list \<Rightarrow> Node list \<times> Parser" where
  "ParseLoop p kids =
     (if Pos p < length (Tokens p) then ParseLoop (snd (ParseStep p kids)) (fst (ParseStep p kids))
      else (kids, p))"
  by pat_completeness auto
termination
proof (relation "measure (\<lambda>(p, kids). length (Tokens p) - Pos p)")
  show "wf (measure (\<lambda>(p, kids). length (Tokens p) - Pos p))" by simp
next
  fix p :: Parser and kids :: "Node list"
  assume c: "Pos p < length (Tokens p)"
  then have "Pos p < Pos (snd (ParseStep p kids))" by (rule Pos_ParseStep_less)
  with c show "((snd (ParseStep p kids), fst (ParseStep p kids)), (p, kids))
      \<in> measure (\<lambda>(p, kids). length (Tokens p) - Pos p)"
    by (simp add: diff_less_mono2)
qed

declare ParseLoop.simps [simp del]

text \<open>\<open>Parse\<close> returns the root; the parser it leaves behind is returned with it.\<close>

definition Parse :: "Parser \<Rightarrow> Node \<times> Parser" where
  "Parse p = (let r = ParseLoop (advance p) [] in (Node ''Root'' [] (fst r) 0, snd r))"

section \<open>The analysis engine\<close>

record Report =
  Issue :: string
  Suggestion :: string
  GasSavings :: int
  Location :: string

definition GasSload :: int where "GasSload = 800"

definition GasMload :: int where "GasMload = 3"

text \<open>
  A node of the tree that the compiler prints. A pointer field is an option, \<open>None\<close> for
  \<open>nil\<close>. \<open>TypeDesc\<close> is its pair of strings and \<open>ParamList\<close> its one slice; no pass
  reads either. The last selector is the field \<open>Value\<close>.
\<close>

datatype SolcASTNode = SolcASTNode
  (NodeType: string)
  (Name: string)
  (Src: string)
  (Nodes: "SolcASTNode list")
  (Body: "SolcASTNode option")
  (Statements: "SolcASTNode list")
  (Expression: "SolcASTNode option")
  (InitialValue: "SolcASTNode option")
  (TypeName: "SolcASTNode option")
  (TypeDescriptions: "(string \<times> string) option")
  (Parameters: "SolcASTNode list option")
  (ReturnParameters: "SolcASTNode list option")
  (IndexExpression: "SolcASTNode option")
  (BaseExpression: "SolcASTNode option")
  (LeftExpression: "SolcASTNode option")
  (RightExpression: "SolcASTNode option")
  (IsLValue: bool)
  (ReferencedDecl: int)
  (Operator: string)
  (SValue: string)

lemma size_Nodes: "c \<in> set (Nodes n) \<Longrightarrow> size c < size n"
proof -
  assume "c \<in> set (Nodes n)"
  then have "size c \<le> size_list size (Nodes n)"
    by (rule size_list_estimation') simp
  also have "\<dots> < size n" by (cases n) simp
  finally show ?thesis .
qed

lemma size_Statements: "c \<in> set (Statements n) \<Longrightarrow> size c < size n"
proof -
  assume "c \<in> set (Statements n)"
  then have "size c \<le> size_list size (Statements n)"
    by (rule size_list_estimation') simp
  also have "\<dots> < size n" by (cases n) simp
  finally show ?thesis .
qed

lemma size_Body: "Body n = Some c \<Longrightarrow> size c < size n"
  by (cases n) auto

lemma size_InitialValue: "InitialValue n = Some c \<Longrightarrow> size c < size n"
  by (cases n) auto

lemma size_Expression: "Expression n = Some c \<Longrightarrow> size c < size n"
  by (cases n) auto

lemma size_LeftExpression: "LeftExpression n = Some c \<Longrightarrow> size c < size n"
  by (cases n) auto

lemma size_RightExpression: "RightExpression n = Some c \<Longrightarrow> size c < size n"
  by (cases n) auto

text \<open>
  What \<open>g.AST\<close> can hold: nothing, the root built by the fallback parser, or the
  document that \<open>json.Unmarshal\<close> returned, of a type \<open>'j\<close> left open. The field
  \<open>Source\<close> of the analyzer is \<open>GSource\<close>, the parser record owning the other name.
\<close>

datatype 'j AST = NilAST | CustomAST Node | SolcAST 'j

record 'j GasOptimizer =
  GSource :: string
  AST :: "'j AST"
  Reports :: "Report list"

text \<open>
  A \<open>map[string]int\<close> is kept as a list of entries with distinct keys. The place of an
  entry in the list means nothing to the program: a \<open>range\<close> over the map visits the
  entries in an order that the Go runtime chooses, and that choice is the parameter
  \<open>rangeOrder\<close> of every function that ranges over a map.
\<close>

type_synonym counts = "(string \<times> int) list"

text \<open>\<open>m[k]++\<close>: a missing key reads as 0.\<close>

fun incr :: "string \<Rightarrow> counts \<Rightarrow> counts" where
  "incr k [] = [(k, 1)]"
| "incr k (e # m) = (if fst e = k then (k, snd e + 1) # m else e # incr k m)"

text \<open>The verb \<open>%d\<close> of \<open>fmt.Sprintf\<close>.\<close>

fun natDigits :: "nat \<Rightarrow> string" where
  "natDigits n =
     (if n < 10 then [char_of (48 + n)] else natDigits (n div 10) @ [char_of (48 + n mod 10)])"

declare natDigits.simps [simp del]

definition itoa :: "int \<Rightarrow> string" where
  "itoa i = (if i < 0 then CHR ''-'' # natDigits (nat (- i)) else natDigits (nat i))"

definition quoted :: "string \<Rightarrow> string" where
  "quoted s = [CHR 0x27] @ s @ [CHR 0x27]"

function walkSolcAST :: "SolcASTNode \<Rightarrow> (SolcASTNode \<Rightarrow> 's \<Rightarrow> 's) \<Rightarrow> 's \<Rightarrow> 's" where
  "walkSolcAST node fn s =
     (let s1 = fn node s;
          s2 = fold (\<lambda>child. walkSolcAST child fn) (Nodes node) s1;
          s3 = (case Body node of None \<Rightarrow> s2 | Some b \<Rightarrow> walkSolcAST b fn s2)
      in fold (\<lambda>stmt. walkSolcAST stmt fn) (Statements node) s3)"
  by pat_completeness auto
termination
  by (relation "measure (\<lambda>(node, fn, s). size node)")
     (auto simp: size_Nodes size_Statements size_Body)

declare walkSolcAST.simps [simp del]

text \<open>The key that \<open>collectStorageReadsSolc\<close> counts at a node, if the node is such a declaration.\<close>

definition storageReadKey :: "SolcASTNode \<Rightarrow> string option" where
  "storageReadKey node =
     (if NodeType node = ''VariableDeclarationStatement'' then
        (case InitialValue node of
           None \<Rightarrow> None
         | Some iv \<Rightarrow>
             (if NodeType iv = ''IndexAccess'' then
                (case BaseExpression iv of
                   None \<Rightarrow> None
                 | Some b \<Rightarrow>
                     (case IndexExpression iv of
                        None \<Rightarrow> None
                      | Some i \<Rightarrow> Some (Name b @ ''['' @ Name i @ '']'')))
              else None))
      else None)"

function collectStorageReadsSolc :: "SolcASTNode \<Rightarrow> counts \<Rightarrow> counts" where
  "collectStorageReadsSolc node storageVars =
     (let sv1 = (case storageReadKey node of None \<Rightarrow> storageVars | Some varName \<Rightarrow> incr varName storageVars);
          sv2 = fold (\<lambda>child. collectStorageReadsSolc child) (Statements node) sv1
      in case Body node of None \<Rightarrow> sv2 | Some b \<Rightarrow> collectStorageReadsSolc b sv2)"
  by pat_completeness auto
termination
  by (relation "measure (\<lambda>(node, sv). size node)") (auto simp: size_Statements size_Body)

declare collectStorageReadsSolc.simps [simp del]

fun collectStorageReadsCustom :: "Node \<Rightarrow> counts \<Rightarrow> counts" where
  "collectStorageReadsCustom (Node t v cs l) storageVars =
     fold (\<lambda>child sv.
             collectStorageReadsCustom child
               (if NType child = ''MemberAccess'' \<and> Children child \<noteq> []
                then incr (NValue child @ ''.'' @ NValue (hd (Children child))) sv else sv))
          cs storageVars"

text \<open>
  \<open>generateLoopReport\<close> ranges over the map and appends one report for each entry
  counted more than once.
\<close>

definition loopReport :: "string \<Rightarrow> string \<times> int \<Rightarrow> Report" where
  "loopReport location e =
     \<lparr>Issue = ''Variable '' @ quoted (fst e) @ '' read '' @ itoa (snd e) @ '' times in loop'',
      Suggestion = ''Cache '' @ quoted (fst e) @ '' in memory before loop'',
      GasSavings = (snd e - 1) * (GasSload - GasMload),
      Location = location\<rparr>"

definition generateLoopReport ::
  "(counts \<Rightarrow> counts) \<Rightarrow> 'j GasOptimizer \<Rightarrow> counts \<Rightarrow> string \<Rightarrow> 'j GasOptimizer" where
  "generateLoopReport rangeOrder g storageVars location =
     fold (\<lambda>e g. if snd e > 1 then g\<lparr>Reports := Reports g @ [loopReport location e]\<rparr> else g)
          (rangeOrder storageVars) g"

definition analyzeCustomAST :: "(counts \<Rightarrow> counts) \<Rightarrow> 'j GasOptimizer \<Rightarrow> Node \<Rightarrow> 'j GasOptimizer" where
  "analyzeCustomAST rangeOrder g ast =
     fold (\<lambda>node g.
             if NType node = ''ForStatement'' \<or> NType node = ''WhileStatement'' then
               generateLoopReport rangeOrder g (collectStorageReadsCustom node [])
                 (''line '' @ itoa (NLine node))
             else g)
          (Children ast) g"

definition checkLoopsForStorageReads ::
  "(counts \<Rightarrow> counts) \<Rightarrow> 'j GasOptimizer \<Rightarrow> SolcASTNode \<Rightarrow> 'j GasOptimizer" where
  "checkLoopsForStorageReads rangeOrder g ast =
     walkSolcAST ast
       (\<lambda>node g.
          if NodeType node = ''ForStatement'' \<or> NodeType node = ''WhileStatement'' then
            generateLoopReport rangeOrder g
              (case Body node of None \<Rightarrow> [] | Some b \<Rightarrow> collectStorageReadsSolc b [])
              (Src node)
          else g)
       g"

definition typeReport :: "string \<Rightarrow> SolcASTNode \<Rightarrow> Report" where
  "typeReport typeName node =
     \<lparr>Issue = ''Inefficient type '' @ quoted typeName @ '' used for variable '' @ quoted (Name node),
      Suggestion = ''Use '' @ quoted ''uint256''
                   @ '' to avoid packing overhead unless tightly packed in a struct'',
      GasSavings = 200,
      Location = Src node\<rparr>"

definition checkInefficientTypes :: "'j GasOptimizer \<Rightarrow> SolcASTNode \<Rightarrow> 'j GasOptimizer" where
  "checkInefficientTypes g ast =
     walkSolcAST ast
       (\<lambda>node g.
          case TypeName node of
            None \<Rightarrow> g
          | Some tn \<Rightarrow>
              (if NodeType node = ''VariableDeclaration''
                  \<and> (Name tn = ''uint8'' \<or> Name tn = ''uint16'' \<or> Name tn = ''uint32'')
               then g\<lparr>Reports := Reports g @ [typeReport (Name tn) node]\<rparr> else g))
       g"

text \<open>
  The key that \<open>collectExpressions\<close> counts at a node: the left operand is read by its
  name first and its value second, the right operand by its value first and its name
  second, and a key needs both to be non-empty.
\<close>

definition expressionKey :: "SolcASTNode \<Rightarrow> string option" where
  "expressionKey node =
     (if NodeType node = ''BinaryOperation'' then
        (case LeftExpression node of
           None \<Rightarrow> None
         | Some le \<Rightarrow>
             (case RightExpression node of
                None \<Rightarrow> None
              | Some re \<Rightarrow>
                  (let leftVal = (if Name le \<noteq> [] then Name le else if SValue le \<noteq> [] then SValue le else []);
                       rightVal = (if SValue re \<noteq> [] then SValue re else if Name re \<noteq> [] then Name re else [])
                   in if leftVal \<noteq> [] \<and> rightVal \<noteq> []
                      then Some (leftVal @ '' '' @ Operator node @ '' '' @ rightVal) else None)))
      else None)"

function collectExpressions :: "SolcASTNode \<Rightarrow> counts \<Rightarrow> counts" where
  "collectExpressions node exprMap =
     (let m1 = (case expressionKey node of None \<Rightarrow> exprMap | Some expr \<Rightarrow> incr expr exprMap);
          m2 = (case LeftExpression node of None \<Rightarrow> m1 | Some le \<Rightarrow> collectExpressions le m1);
          m3 = (case RightExpression node of None \<Rightarrow> m2 | Some re \<Rightarrow> collectExpressions re m2);
          m4 = (if NodeType node = ''VariableDeclarationStatement'' then
                  (case InitialValue node of None \<Rightarrow> m3 | Some iv \<Rightarrow> collectExpressions iv m3)
                else m3);
          m5 = (if NodeType node = ''Return'' then
                  (case Expression node of None \<Rightarrow> m4 | Some e \<Rightarrow> collectExpressions e m4)
                else m4)
      in fold (\<lambda>stmt. collectExpressions stmt) (Statements node) m5)"
  by pat_completeness auto
termination
  by (relation "measure (\<lambda>(node, m). size node)")
     (auto simp: size_Statements size_LeftExpression size_RightExpression size_InitialValue
        size_Expression)

declare collectExpressions.simps [simp del]

definition redundantReport :: "string \<Rightarrow> string \<times> int \<Rightarrow> Report" where
  "redundantReport location e =
     \<lparr>Issue = ''Expression '' @ quoted (fst e) @ '' computed '' @ itoa (snd e) @ '' times'',
      Suggestion = ''Cache the result in a local variable'',
      GasSavings = snd e * 50,
      Location = location\<rparr>"

definition checkRedundantOperations ::
  "(counts \<Rightarrow> counts) \<Rightarrow> 'j GasOptimizer \<Rightarrow> SolcASTNode \<Rightarrow> 'j GasOptimizer" where
  "checkRedundantOperations rangeOrder g ast =
     walkSolcAST ast
       (\<lambda>node g.
          case Body node of
            None \<Rightarrow> g
          | Some b \<Rightarrow>
              (if NodeType node = ''FunctionDefinition'' then
                 fold (\<lambda>e g. if snd e > 1
                              then g\<lparr>Reports := Reports g @ [redundantReport (Src node) e]\<rparr> else g)
                      (rangeOrder (collectExpressions b [])) g
               else g))
       g"

text \<open>
  \<open>analyzeSolcAST\<close> re-encodes the document and decodes it into a \<open>SolcASTNode\<close>, both
  errors dropped; \<open>decode\<close> stands for the two library calls together.
\<close>

definition analyzeSolcAST ::
  "(counts \<Rightarrow> counts) \<Rightarrow> ('j \<Rightarrow> SolcASTNode) \<Rightarrow> 'j GasOptimizer \<Rightarrow> 'j \<Rightarrow> 'j GasOptimizer" where
  "analyzeSolcAST rangeOrder decode g ast =
     (let root = decode ast;
          g1 = checkLoopsForStorageReads rangeOrder g root;
          g2 = checkInefficientTypes g1 root
      in checkRedundantOperations rangeOrder g2 root)"

definition Analyze ::
  "(counts \<Rightarrow> counts) \<Rightarrow> ('j \<Rightarrow> SolcASTNode) \<Rightarrow> 'j GasOptimizer \<Rightarrow> 'j GasOptimizer" where
  "Analyze rangeOrder decode g =
     (case AST g of
        CustomAST ast \<Rightarrow> analyzeCustomAST rangeOrder g ast
      | SolcAST ast \<Rightarrow> analyzeSolcAST rangeOrder decode g ast
      | NilAST \<Rightarrow> g)"

section \<open>Construction of the analyzer\<close>

text \<open>
  \<open>NewGasOptimizer\<close> calls the operating system and three libraries. Their outcomes are
  the fields of an environment: the file read, the run of \<open>solc\<close> with its combined
  output (\<open>None\<close> when \<open>err != nil\<close>), the first submatch of the regular expression
  (\<open>None\<close> when \<open>len(matches) < 2\<close>), and \<open>json.Unmarshal\<close> (\<open>None\<close> on an error).
\<close>

record 'j Env =
  readFile :: "string \<Rightarrow> string option"
  runSolc :: "string \<Rightarrow> string option"
  findSubmatch :: "string \<Rightarrow> string option"
  unmarshal :: "string \<Rightarrow> 'j option"

datatype error = ReadFailed | NoJSONFound string | ASTParseFailed string

definition NewGasOptimizer ::
  "(string \<Rightarrow> bool) \<Rightarrow> 'j Env \<Rightarrow> string \<Rightarrow> error + 'j GasOptimizer" where
  "NewGasOptimizer scanInt env filePath =
     (case readFile env filePath of
        None \<Rightarrow> Inl ReadFailed
      | Some source \<Rightarrow>
          (case runSolc env filePath of
             None \<Rightarrow>
               Inr \<lparr>GSource = source,
                    AST = CustomAST (fst (Parse (NewParser scanInt source))),
                    Reports = []\<rparr>
           | Some output \<Rightarrow>
               (case findSubmatch env output of
                  None \<Rightarrow> Inl (NoJSONFound output)
                | Some jsonData \<Rightarrow>
                    (case unmarshal env jsonData of
                       None \<Rightarrow> Inl (ASTParseFailed jsonData)
                     | Some ast \<Rightarrow> Inr \<lparr>GSource = source, AST = SolcAST ast, Reports = []\<rparr>))))"

section \<open>Progress of the parser's cursor\<close>

text \<open>
  The cursor never passes the end of the stream: every builder moves it only through
  \<open>advance\<close>.
\<close>

lemma Pos_skipHeader_bound:
  "Pos p \<le> length (Tokens p) \<Longrightarrow> Pos (skipHeader p) \<le> length (Tokens p)"
proof (induction p rule: skipHeader.induct)
  case (1 p)
  show ?case
  proof (cases "Value (Current p) \<noteq> '')'' \<and> Pos p < length (Tokens p)")
    case True
    then have "Pos (advance p) \<le> length (Tokens (advance p))" by (simp add: advance_def)
    with 1(1) True have "Pos (skipHeader (advance p)) \<le> length (Tokens p)" by simp
    then show ?thesis using True by (subst skipHeader.simps) simp
  next
    case False
    then show ?thesis using 1(2) by (subst skipHeader.simps) auto
  qed
qed

lemma Pos_parseVariableAccess_bound:
  "Pos p \<le> length (Tokens p) \<Longrightarrow> Pos (snd (parseVariableAccess p)) \<le> length (Tokens p)"
  using Pos_advance_bound [of p] Pos_advance_bound [of "advance p"]
    Pos_advance_bound [of "advance (advance p)"]
  by (auto simp: parseVariableAccess_def Let_def)

lemma Pos_blockLoop_bound:
  "Pos p \<le> length (Tokens p) \<Longrightarrow> Pos (snd (blockLoop p kids)) \<le> length (Tokens p)"
proof (induction p kids rule: blockLoop.induct)
  case (1 p kids)
  let ?c = "Value (Current p) \<noteq> ''}'' \<and> Pos p < length (Tokens p)"
  let ?q = "snd (parseVariableAccess p)"
  show ?case
  proof (cases ?c)
    case False
    then show ?thesis using 1(3) by (subst blockLoop.simps) auto
  next
    case True
    show ?thesis
    proof (cases "Type (Current p) = TokenIdentifier")
      case True
      have "Pos (advance ?q) \<le> length (Tokens (advance ?q))"
        using Pos_advance_bound [of ?q] Pos_parseVariableAccess_bound [OF 1(3)] by simp
      then have "Pos (snd (blockLoop (advance ?q) (kids @ [fst (parseVariableAccess p)]))) \<le> length (Tokens p)"
        using 1(1) \<open>?c\<close> True by simp
      then show ?thesis using \<open>?c\<close> True by (subst blockLoop.simps) simp
    next
      case False
      have "Pos (advance p) \<le> length (Tokens (advance p))"
        using Pos_advance_bound [OF 1(3)] by simp
      then have "Pos (snd (blockLoop (advance p) kids)) \<le> length (Tokens p)"
        using 1(2) \<open>?c\<close> False by simp
      then show ?thesis using \<open>?c\<close> False by (subst blockLoop.simps) simp
    qed
  qed
qed

lemma Pos_parseLoop_bound:
  "Pos p \<le> length (Tokens p) \<Longrightarrow> Pos (snd (parseLoop node p)) \<le> length (Tokens p)"
proof -
  assume a: "Pos p \<le> length (Tokens p)"
  let ?p3 = "advance (skipHeader (advance p))"
  have b: "Pos ?p3 \<le> length (Tokens p)"
    using Pos_advance_bound [of "skipHeader (advance p)"] Pos_skipHeader_bound [of "advance p"]
      Pos_advance_bound [OF a] by simp
  have c: "Pos (advance (snd (blockLoop (advance ?p3) []))) \<le> length (Tokens p)"
    using Pos_advance_bound [of "snd (blockLoop (advance ?p3) [])"]
      Pos_blockLoop_bound [of "advance ?p3" "[]"] Pos_advance_bound [of ?p3] b by simp
  from a b c show ?thesis by (auto simp: parseLoop_def Let_def)
qed

lemma Pos_parseForLoop_bound:
  "Pos p \<le> length (Tokens p) \<Longrightarrow> Pos (snd (parseForLoop p)) \<le> length (Tokens p)"
  using Pos_parseLoop_bound [of "advance p"] Pos_advance_bound [of p]
  by (simp add: parseForLoop_def)

lemma Pos_parseWhileLoop_bound:
  "Pos p \<le> length (Tokens p) \<Longrightarrow> Pos (snd (parseWhileLoop p)) \<le> length (Tokens p)"
  using Pos_parseLoop_bound [of "advance p"] Pos_advance_bound [of p]
  by (simp add: parseWhileLoop_def)

lemma Pos_parseIfStatement_bound:
  "Pos p \<le> length (Tokens p) \<Longrightarrow> Pos (snd (parseIfStatement p)) \<le> length (Tokens p)"
proof -
  assume a0: "Pos p \<le> length (Tokens p)"
  let ?p0 = "advance p"
  have a: "Pos ?p0 \<le> length (Tokens p)" using Pos_advance_bound [OF a0] .
  let ?p3 = "advance (skipHeader (advance ?p0))"
  have b: "Pos ?p3 \<le> length (Tokens p)"
    using Pos_advance_bound [of "skipHeader (advance ?p0)"] Pos_skipHeader_bound [of "advance ?p0"]
      Pos_advance_bound [of ?p0] a by simp
  have c: "Pos (advance (snd (blockLoop (advance ?p3) []))) \<le> length (Tokens p)"
    using Pos_advance_bound [of "snd (blockLoop (advance ?p3) [])"]
      Pos_blockLoop_bound [of "advance ?p3" "[]"] Pos_advance_bound [of ?p3] b by simp
  from a b c show ?thesis by (auto simp: parseIfStatement_def Let_def)
qed

lemma Pos_functionBlockItem_bound:
  "Pos p \<le> length (Tokens p) \<Longrightarrow> Pos (snd (functionBlockItem p kids)) \<le> length (Tokens p)"
  using Pos_parseForLoop_bound [of p] Pos_parseWhileLoop_bound [of p]
    Pos_parseIfStatement_bound [of p] Pos_parseVariableAccess_bound [of p]
  by (auto simp: functionBlockItem_def)

lemma Pos_functionBlockLoop_bound:
  "Pos p \<le> length (Tokens p) \<Longrightarrow> Pos (snd (functionBlockLoop p kids)) \<le> length (Tokens p)"
proof (induction p kids rule: functionBlockLoop.induct)
  case (1 p kids)
  let ?c = "Value (Current p) \<noteq> ''}'' \<and> Pos p < length (Tokens p)"
  let ?q = "snd (functionBlockItem p kids)"
  show ?case
  proof (cases ?c)
    case False
    then show ?thesis using 1(2) by (subst functionBlockLoop.simps) auto
  next
    case True
    have "Pos (advance ?q) \<le> length (Tokens (advance ?q))"
      using Pos_advance_bound [of ?q] Pos_functionBlockItem_bound [OF 1(2)] by simp
    then have "Pos (snd (functionBlockLoop (advance ?q) (fst (functionBlockItem p kids)))) \<le> length (Tokens p)"
      using 1(1) True by simp
    then show ?thesis using True by (subst functionBlockLoop.simps) simp
  qed
qed

lemma Pos_parseFunction_bound:
  "Pos p \<le> length (Tokens p) \<Longrightarrow> Pos (snd (parseFunction p)) \<le> length (Tokens p)"
proof -
  assume a0: "Pos p \<le> length (Tokens p)"
  let ?p1 = "advance p"
  let ?p2 = "if Type (Current ?p1) = TokenIdentifier then advance ?p1 else ?p1"
  let ?p3 = "if Type (Current ?p2) = TokenPunctuation \<and> Value (Current ?p2) = ''(''
             then advance (skipHeader (advance ?p2)) else ?p2"
  have t2: "Tokens ?p2 = Tokens p" by simp
  have t3: "Tokens ?p3 = Tokens p" by simp
  have a1: "Pos ?p1 \<le> length (Tokens p)" using Pos_advance_bound [OF a0] .
  have a2: "Pos ?p2 \<le> length (Tokens p)" using a1 Pos_advance_bound [of ?p1] by simp
  have "Pos (advance (skipHeader (advance ?p2))) \<le> length (Tokens p)"
    using Pos_advance_bound [of "skipHeader (advance ?p2)"] Pos_skipHeader_bound [of "advance ?p2"]
      Pos_advance_bound [of ?p2] a2 t2 by simp
  then have a3: "Pos ?p3 \<le> length (Tokens p)" using a2 by presburger
  have c: "Pos (advance (snd (functionBlockLoop (advance ?p3) []))) \<le> length (Tokens p)"
    using Pos_advance_bound [of "snd (functionBlockLoop (advance ?p3) [])"]
      Pos_functionBlockLoop_bound [of "advance ?p3" "[]"] Pos_advance_bound [of ?p3] a3 t3
    by simp
  from a3 c show ?thesis unfolding parseFunction_def Let_def by (simp split: if_splits)
qed

lemma Pos_ParseStep_bound:
  "Pos p \<le> length (Tokens p) \<Longrightarrow> Pos (snd (ParseStep p kids)) \<le> length (Tokens p)"
  using Pos_parseForLoop_bound [of p] Pos_parseWhileLoop_bound [of p]
    Pos_parseIfStatement_bound [of p] Pos_parseFunction_bound [of p] Pos_advance_bound [of p]
  by (auto simp: ParseStep_def)

lemma Tokens_ParseLoop [simp]: "Tokens (snd (ParseLoop p kids)) = Tokens p"
  by (induction p kids rule: ParseLoop.induct) (subst ParseLoop.simps, simp)

lemma Pos_ParseLoop_end:
  "Pos p \<le> length (Tokens p) \<Longrightarrow> Pos (snd (ParseLoop p kids)) = length (Tokens p)"
proof (induction p kids rule: ParseLoop.induct)
  case (1 p kids)
  show ?case
  proof (cases "Pos p < length (Tokens p)")
    case True
    have "Pos (snd (ParseStep p kids)) \<le> length (Tokens (snd (ParseStep p kids)))"
      using Pos_ParseStep_bound [OF 1(2)] by simp
    with 1(1) True have "Pos (snd (ParseLoop (snd (ParseStep p kids)) (fst (ParseStep p kids)))) = length (Tokens p)"
      by simp
    then show ?thesis using True by (subst ParseLoop.simps) simp
  next
    case False
    then show ?thesis using 1(2) by (subst ParseLoop.simps) simp
  qed
qed

text \<open>One round of the top-level loop, on the pair that the loop carries.\<close>

definition ParseRound :: "Node list \<times> Parser \<Rightarrow> Node list \<times> Parser" where
  "ParseRound st = ParseStep (snd st) (fst st)"

lemma ParseLoop_rounds:
  "\<exists>n \<le> length (Tokens p) - Pos p. ParseLoop p kids = (ParseRound ^^ n) (kids, p)"
proof (induction p kids rule: ParseLoop.induct)
  case (1 p kids)
  show ?case
  proof (cases "Pos p < length (Tokens p)")
    case True
    let ?q = "snd (ParseStep p kids)" and ?k = "fst (ParseStep p kids)"
    from 1 True obtain n where n: "n \<le> length (Tokens ?q) - Pos ?q"
      and e: "ParseLoop ?q ?k = (ParseRound ^^ n) (?k, ?q)" by blast
    have "Pos p < Pos ?q" using True by (rule Pos_ParseStep_less)
    with n True have "Suc n \<le> length (Tokens p) - Pos p" by simp
    moreover have "ParseLoop p kids = (ParseRound ^^ Suc n) (kids, p)"
      using True e by (subst ParseLoop.simps) (simp add: funpow_swap1 ParseRound_def)
    ultimately show ?thesis by blast
  next
    case False
    then have "ParseLoop p kids = (ParseRound ^^ 0) (kids, p)"
      by (subst ParseLoop.simps) simp
    then show ?thesis by blast
  qed
qed

text \<open>Token streams for the examples, written token by token, all on line 1.\<close>

definition tkKeyword :: "string \<Rightarrow> Token" where
  "tkKeyword v = \<lparr>Type = TokenKeyword, Value = v, Line = 1\<rparr>"

definition tkIdent :: "string \<Rightarrow> Token" where
  "tkIdent v = \<lparr>Type = TokenIdentifier, Value = v, Line = 1\<rparr>"

definition tkOp :: "string \<Rightarrow> Token" where
  "tkOp v = \<lparr>Type = TokenOperator, Value = v, Line = 1\<rparr>"

definition tkPunct :: "string \<Rightarrow> Token" where
  "tkPunct v = \<lparr>Type = TokenPunctuation, Value = v, Line = 1\<rparr>"

text \<open>
  Where an example starts from source text, the integer scan accepts the texts made of
  decimal digits; the example texts hold no number.
\<close>

definition scanDigits :: "string \<Rightarrow> bool" where
  "scanDigits v = (v \<noteq> [] \<and> list_all (\<lambda>c. c \<in> set ''0123456789'') v)"

text \<open>A parser as \<open>NewParser\<close> leaves it, over a given token stream.\<close>

definition parserOf :: "Token list \<Rightarrow> Parser" where
  "parserOf ts = \<lparr>Tokens = ts, Pos = 0, Source = [], Current = zeroToken\<rparr>"

text \<open>The malformed stream \<open>for ( a . b { c\<close>: neither the parenthesis nor the brace is closed.\<close>

definition unbalancedTokens :: "Token list" where
  "unbalancedTokens =
     [tkKeyword ''for'', tkPunct ''('', tkIdent ''a'', tkOp ''.'', tkIdent ''b'', tkPunct ''{'',
      tkIdent ''c'']"

text \<open>
  Claim C8: on every token stream, malformed ones and the empty one included, \<open>Parse\<close>
  terminates, its cursor strictly increases on every step, and nothing is fatal.

  A step is one round of a loop of the parser. While the cursor is inside the stream,
  \<open>advance\<close> moves it by one, and so a round of the header loop (one \<open>advance\<close>), a round
  of the block loop of a loop or conditional (a variable access or nothing, then
  \<open>advance\<close>), a round of a function's block loop and a round of the top-level loop all
  move it strictly forward. The top-level loop returns after at most as many rounds as
  there are tokens left, and \<open>Parse\<close> returns the root with the cursor at the end of the
  stream, for every token stream and for every source text. The model has no failing branch: \<open>Tokens[Pos]\<close> is read only under the guard of
  \<open>advance\<close>.
\<close>

theorem Parse_terminates_cursor_advances:
  "(Pos p < length (Tokens p) \<longrightarrow>
      Pos (advance p) = Pos p + 1
      \<and> Pos p < Pos (advance (snd (parseVariableAccess p)))
      \<and> Pos p < Pos (advance (snd (functionBlockItem p kids)))
      \<and> Pos p < Pos (snd (ParseStep p kids)))
   \<and> (\<exists>n \<le> length (Tokens p) - Pos p. ParseLoop p kids = (ParseRound ^^ n) (kids, p))
   \<and> (Pos p \<le> length (Tokens p) \<longrightarrow>
        Pos (snd (Parse p)) = length (Tokens p) \<and> NType (fst (Parse p)) = ''Root'')
   \<and> Pos (snd (Parse (parserOf ts))) = length ts
   \<and> Pos (snd (Parse (NewParser scanInt source))) = length (tokenize scanInt source)"
proof -
  have a: "Pos (advance p) = Pos p + 1
      \<and> Pos p < Pos (advance (snd (parseVariableAccess p)))
      \<and> Pos p < Pos (advance (snd (functionBlockItem p kids)))
      \<and> Pos p < Pos (snd (ParseStep p kids))" if lt: "Pos p < length (Tokens p)"
  proof -
    have 1: "Pos (advance p) = Pos p + 1" using lt by (rule Pos_advance_less)
    have 2: "Pos p < Pos (advance (snd (parseVariableAccess p)))"
      using 1 Pos_parseVariableAccess_mono [of p]
        Pos_advance_mono [of "snd (parseVariableAccess p)"] by linarith
    have 3: "Pos p < Pos (advance (snd (functionBlockItem p kids)))"
    proof (cases "Pos p < Pos (snd (functionBlockItem p kids))")
      case True
      then show ?thesis using Pos_advance_mono [of "snd (functionBlockItem p kids)"] by linarith
    next
      case False
      then have e: "Pos (snd (functionBlockItem p kids)) = Pos p"
        using Pos_functionBlockItem_mono [of p kids] by linarith
      then have "Pos (snd (functionBlockItem p kids)) < length (Tokens (snd (functionBlockItem p kids)))"
        using lt by simp
      then show ?thesis using e by (simp add: Pos_advance_less)
    qed
    have 4: "Pos p < Pos (snd (ParseStep p kids))" using lt by (rule Pos_ParseStep_less)
    from 1 2 3 4 show ?thesis by blast
  qed
  have b: "\<exists>n \<le> length (Tokens p) - Pos p. ParseLoop p kids = (ParseRound ^^ n) (kids, p)"
    by (rule ParseLoop_rounds)
  have c: "Pos (snd (Parse p)) = length (Tokens p) \<and> NType (fst (Parse p)) = ''Root''"
    if le: "Pos p \<le> length (Tokens p)"
  proof -
    have "Pos (advance p) \<le> length (Tokens (advance p))"
      using Pos_advance_bound [OF le] by simp
    then have "Pos (snd (ParseLoop (advance p) [])) = length (Tokens (advance p))"
      by (rule Pos_ParseLoop_end)
    then show ?thesis by (simp add: Parse_def Let_def)
  qed
  have "Pos (advance q) \<le> length (Tokens (advance q))" if "Pos q = 0" for q
    using that Pos_advance_bound [of q] by simp
  then have e: "Pos (snd (Parse q)) = length (Tokens q)" if "Pos q = 0" for q
    using that Pos_ParseLoop_end [of "advance q" "[]"] by (simp add: Parse_def Let_def)
  have d: "Pos (snd (Parse (parserOf ts))) = length ts"
    using e [of "parserOf ts"] by (simp add: parserOf_def)
  have f: "Pos (snd (Parse (NewParser scanInt source))) = length (tokenize scanInt source)"
    using e [of "NewParser scanInt source"] by (simp add: NewParser_def)
  from a b c d f show ?thesis by blast
qed

theorem Parse_terminates_cursor_advances_witness:
  "Pos (advance (parserOf unbalancedTokens)) < length (Tokens (advance (parserOf unbalancedTokens)))
   \<and> Pos (advance (parserOf unbalancedTokens))
       < Pos (snd (ParseStep (advance (parserOf unbalancedTokens)) []))
   \<and> Pos (parserOf unbalancedTokens) \<le> length (Tokens (parserOf unbalancedTokens))
   \<and> Pos (snd (Parse (parserOf unbalancedTokens))) = length unbalancedTokens
   \<and> fst (Parse (parserOf unbalancedTokens)) = Node ''Root'' [] [Node ''ForStatement'' [] [] 1] 0
   \<and> fst (Parse (parserOf [])) = Node ''Root'' [] [] 0"
proof -
  let ?p = "parserOf unbalancedTokens"
  have z: "fst (Parse (parserOf [])) = Node ''Root'' [] [] 0" by code_simp
  have h1: "Pos (advance ?p) < length (Tokens (advance ?p))" by code_simp
  have h2: "Pos ?p \<le> length (Tokens ?p)" by (simp add: parserOf_def)
  have t: "Tokens ?p = unbalancedTokens" by (simp add: parserOf_def)
  have r: "fst (Parse ?p) = Node ''Root'' [] [Node ''ForStatement'' [] [] 1] 0" by code_simp
  from h1 Parse_terminates_cursor_advances [of "advance ?p" "[]"]
  have s1: "Pos (advance ?p) < Pos (snd (ParseStep (advance ?p) []))" by blast
  from h2 Parse_terminates_cursor_advances [of ?p "[]"]
  have s2: "Pos (snd (Parse ?p)) = length (Tokens ?p)" by blast
  from h1 h2 s1 s2 t r z show ?thesis by simp
qed

section \<open>Where the header and the block end\<close>

text \<open>
  The header skip as the specification words it, for comparison with \<open>skipHeader\<close>: the
  same loop with a depth counter, where an open parenthesis inside the header raises
  the depth and the loop ends only at the close parenthesis met at depth 0.
\<close>

function skipHeaderBalanced :: "nat \<Rightarrow> Parser \<Rightarrow> Parser" where
  "skipHeaderBalanced depth p =
     (if Pos p < length (Tokens p) \<and> \<not> (Value (Current p) = '')'' \<and> depth = 0) then
        skipHeaderBalanced
          (if Value (Current p) = ''('' then depth + 1
           else if Value (Current p) = '')'' then depth - 1 else depth)
          (advance p)
      else p)"
  by pat_completeness auto
termination
  by (relation "measure (\<lambda>(depth, p). length (Tokens p) - Pos p)") (auto simp: advance_def)

declare skipHeaderBalanced.simps [simp del]

text \<open>
  The stream \<open>while ( ( x ) ) { a . b ; }\<close>, whose header holds a pair of parentheses, and
  the stream \<open>while ( x ) { { a . b ; } c . d ; }\<close>, whose block holds a pair of braces.
\<close>

definition nestedHeaderTokens :: "Token list" where
  "nestedHeaderTokens =
     [tkKeyword ''while'', tkPunct ''('', tkPunct ''('', tkIdent ''x'', tkPunct '')'', tkPunct '')'',
      tkPunct ''{'', tkIdent ''a'', tkOp ''.'', tkIdent ''b'', tkOp '';'', tkPunct ''}'']"

definition nestedBlockTokens :: "Token list" where
  "nestedBlockTokens =
     [tkKeyword ''while'', tkPunct ''('', tkIdent ''x'', tkPunct '')'',
      tkPunct ''{'', tkPunct ''{'', tkIdent ''a'', tkOp ''.'', tkIdent ''b'', tkOp '';'', tkPunct ''}'',
      tkIdent ''c'', tkOp ''.'', tkIdent ''d'', tkOp '';'', tkPunct ''}'']"

text \<open>
  The parser where the header loop starts when the statement opens the stream: after
  the \<open>advance\<close> of \<open>Parse\<close>, the one past the keyword and the one past the parenthesis.
\<close>

definition headerStart :: "Token list \<Rightarrow> Parser" where
  "headerStart ts = advance (advance (advance (parserOf ts)))"

lemma skipHeader_stop: "Value (Current p) = '')'' \<Longrightarrow> skipHeader p = p"
  by (subst skipHeader.simps) simp

lemma skipHeader_first_close:
  "Tokens p = pre @ c # hdr @ close # post \<Longrightarrow> Pos p = Suc (length pre) \<Longrightarrow> Current p = c \<Longrightarrow>
   \<forall>t \<in> set (c # hdr). Value t \<noteq> '')'' \<Longrightarrow> Value close = '')'' \<Longrightarrow>
   skipHeader p = p\<lparr>Current := close, Pos := length pre + length hdr + 2\<rparr>"
proof (induction hdr arbitrary: p pre c)
  case Nil
  have lt: "Pos p < length (Tokens p)" using Nil by simp
  have nth: "Tokens p ! Pos p = close" using Nil by (simp add: nth_append)
  have adv: "advance p = p\<lparr>Current := close, Pos := length pre + 2\<rparr>"
    using lt nth Nil by (simp add: advance_def)
  have "skipHeader p = skipHeader (advance p)"
    using Nil lt by (subst skipHeader.simps) simp
  also have "\<dots> = advance p"
    using adv Nil by (intro skipHeader_stop) simp
  finally show ?case using adv by simp
next
  case (Cons h hs)
  have lt: "Pos p < length (Tokens p)" using Cons.prems by simp
  have nth: "Tokens p ! Pos p = h" using Cons.prems by (simp add: nth_append)
  have adv: "advance p = p\<lparr>Current := h, Pos := Suc (length (pre @ [c]))\<rparr>"
    using lt nth Cons.prems by (simp add: advance_def)
  have step: "skipHeader p = skipHeader (advance p)"
    using Cons.prems lt by (subst skipHeader.simps) simp
  have "skipHeader (advance p) =
      (advance p)\<lparr>Current := close, Pos := length (pre @ [c]) + length hs + 2\<rparr>"
  proof (rule Cons.IH)
    show "Tokens (advance p) = (pre @ [c]) @ h # hs @ close # post" using Cons.prems by simp
    show "Pos (advance p) = Suc (length (pre @ [c]))" using adv by simp
    show "Current (advance p) = h" using adv by simp
    show "\<forall>t\<in>set (h # hs). Value t \<noteq> '')''" using Cons.prems by simp
    show "Value close = '')''" using Cons.prems by simp
  qed
  then show ?case using step adv by simp
qed

lemma skipHeader_end:
  "Pos p \<le> length (Tokens p) \<Longrightarrow>
   Value (Current (skipHeader p)) = '')'' \<or> Pos (skipHeader p) = length (Tokens p)"
proof (induction p rule: skipHeader.induct)
  case (1 p)
  show ?case
  proof (cases "Value (Current p) \<noteq> '')'' \<and> Pos p < length (Tokens p)")
    case True
    then have "Pos (advance p) \<le> length (Tokens (advance p))" by (simp add: advance_def)
    with 1(1) True have "Value (Current (skipHeader (advance p))) = '')''
        \<or> Pos (skipHeader (advance p)) = length (Tokens p)" by simp
    then show ?thesis using True by (subst (1 2) skipHeader.simps) simp
  next
    case False
    then show ?thesis using 1(2) by (subst (1 2) skipHeader.simps) auto
  qed
qed

lemma blockLoop_stop: "Value (Current p) = ''}'' \<Longrightarrow> blockLoop p kids = (kids, p)"
  by (subst blockLoop.simps) simp

lemma functionBlockLoop_stop: "Value (Current p) = ''}'' \<Longrightarrow> functionBlockLoop p kids = (kids, p)"
  by (subst functionBlockLoop.simps) simp

lemma blockLoop_end:
  "Pos p \<le> length (Tokens p) \<Longrightarrow>
   Value (Current (snd (blockLoop p kids))) = ''}'' \<or> Pos (snd (blockLoop p kids)) = length (Tokens p)"
proof (induction p kids rule: blockLoop.induct)
  case (1 p kids)
  let ?c = "Value (Current p) \<noteq> ''}'' \<and> Pos p < length (Tokens p)"
  let ?q = "snd (parseVariableAccess p)"
  show ?case
  proof (cases ?c)
    case False
    then have "blockLoop p kids = (kids, p)" by (subst blockLoop.simps) auto
    then show ?thesis using False 1(3) by auto
  next
    case True
    show ?thesis
    proof (cases "Type (Current p) = TokenIdentifier")
      case True
      have "Pos (advance ?q) \<le> length (Tokens (advance ?q))"
        using Pos_advance_bound [of ?q] Pos_parseVariableAccess_bound [OF 1(3)] by simp
      then have "Value (Current (snd (blockLoop (advance ?q) (kids @ [fst (parseVariableAccess p)])))) = ''}''
         \<or> Pos (snd (blockLoop (advance ?q) (kids @ [fst (parseVariableAccess p)]))) = length (Tokens p)"
        using 1(1) \<open>?c\<close> True by simp
      moreover have "blockLoop p kids = blockLoop (advance ?q) (kids @ [fst (parseVariableAccess p)])"
        using \<open>?c\<close> True by (subst blockLoop.simps) simp
      ultimately show ?thesis by simp
    next
      case False
      have "Pos (advance p) \<le> length (Tokens (advance p))"
        using Pos_advance_bound [OF 1(3)] by simp
      then have "Value (Current (snd (blockLoop (advance p) kids))) = ''}''
          \<or> Pos (snd (blockLoop (advance p) kids)) = length (Tokens p)"
        using 1(2) \<open>?c\<close> False by simp
      moreover have "blockLoop p kids = blockLoop (advance p) kids"
        using \<open>?c\<close> False by (subst blockLoop.simps) simp
      ultimately show ?thesis by simp
    qed
  qed
qed

lemma functionBlockLoop_end:
  "Pos p \<le> length (Tokens p) \<Longrightarrow>
   Value (Current (snd (functionBlockLoop p kids))) = ''}''
   \<or> Pos (snd (functionBlockLoop p kids)) = length (Tokens p)"
proof (induction p kids rule: functionBlockLoop.induct)
  case (1 p kids)
  let ?c = "Value (Current p) \<noteq> ''}'' \<and> Pos p < length (Tokens p)"
  let ?q = "snd (functionBlockItem p kids)"
  show ?case
  proof (cases ?c)
    case False
    then have "functionBlockLoop p kids = (kids, p)" by (subst functionBlockLoop.simps) auto
    then show ?thesis using False 1(2) by auto
  next
    case True
    have "Pos (advance ?q) \<le> length (Tokens (advance ?q))"
      using Pos_advance_bound [of ?q] Pos_functionBlockItem_bound [OF 1(2)] by simp
    then have "Value (Current (snd (functionBlockLoop (advance ?q) (fst (functionBlockItem p kids))))) = ''}''
        \<or> Pos (snd (functionBlockLoop (advance ?q) (fst (functionBlockItem p kids)))) = length (Tokens p)"
      using 1(1) True by simp
    moreover have "functionBlockLoop p kids = functionBlockLoop (advance ?q) (fst (functionBlockItem p kids))"
      using True by (subst functionBlockLoop.simps) simp
    ultimately show ?thesis by simp
  qed
qed

text \<open>
  Claim C2, as stated: the header of a loop or conditional is skipped with depth-aware
  matching, ending only at the close parenthesis that balances the opening one and never
  at the first one met; block building likewise ends only at the balancing brace.

  It fails on the text \<open>while ((x)) { a.b; }\<close>: the skip of the source stops on the first
  close parenthesis (token 4, cursor 5), the depth-aware skip on the balancing one
  (cursor 6), so that the source finds no brace after the header and builds a loop
  without a block. On \<open>while (x) { { a.b; } c.d; }\<close> the block ends at the inner brace
  and \<open>c.d\<close> is left out of it.
\<close>

theorem header_skip_depth_aware_counterexample:
  "tokenize scanDigits ''while ((x)) { a.b; }'' = nestedHeaderTokens
   \<and> tokenize scanDigits ''while (x) { { a.b; } c.d; }'' = nestedBlockTokens
   \<and> Pos (skipHeader (headerStart nestedHeaderTokens)) = 5
   \<and> Current (skipHeader (headerStart nestedHeaderTokens)) = nestedHeaderTokens ! 4
   \<and> Pos (skipHeaderBalanced 0 (headerStart nestedHeaderTokens)) = 6
   \<and> skipHeader (headerStart nestedHeaderTokens)
       \<noteq> skipHeaderBalanced 0 (headerStart nestedHeaderTokens)
   \<and> fst (Parse (parserOf nestedHeaderTokens)) = Node ''Root'' [] [Node ''WhileStatement'' [] [] 1] 0
   \<and> fst (Parse (parserOf nestedBlockTokens)) =
       Node ''Root'' []
         [Node ''WhileStatement'' []
            [Node ''Block'' [] [Node ''MemberAccess'' ''a'' [Node ''Identifier'' ''b'' [] 1] 1] 1] 1] 0"
proof -
  have a: "Pos (skipHeader (headerStart nestedHeaderTokens)) = 5" by code_simp
  have b: "Current (skipHeader (headerStart nestedHeaderTokens)) = nestedHeaderTokens ! 4"
    by code_simp
  have c: "Pos (skipHeaderBalanced 0 (headerStart nestedHeaderTokens)) = 6" by code_simp
  have d: "skipHeader (headerStart nestedHeaderTokens)
       \<noteq> skipHeaderBalanced 0 (headerStart nestedHeaderTokens)"
    using a c by auto
  have e: "fst (Parse (parserOf nestedHeaderTokens)) = Node ''Root'' [] [Node ''WhileStatement'' [] [] 1] 0"
    by code_simp
  have f: "fst (Parse (parserOf nestedBlockTokens)) =
       Node ''Root'' []
         [Node ''WhileStatement'' []
            [Node ''Block'' [] [Node ''MemberAccess'' ''a'' [Node ''Identifier'' ''b'' [] 1] 1] 1] 1] 0"
    by code_simp
  have g: "tokenize scanDigits ''while ((x)) { a.b; }'' = nestedHeaderTokens" by code_simp
  have h: "tokenize scanDigits ''while (x) { { a.b; } c.d; }'' = nestedBlockTokens" by code_simp
  from a b c d e f g h show ?thesis by blast
qed

text \<open>
  Claim C2, amended: the header is skipped up to the first token with the text \<open>)\<close>
  after the opening parenthesis, or to the end of the stream when there is none, and an
  open parenthesis in between changes nothing; a block loop ends as soon as the token
  under the cursor at the start of a round has the text \<open>}\<close>, or the stream is
  exhausted, and open braces are not counted.

  When the header tokens \<open>c # hdr\<close> hold no \<open>)\<close> and the next token \<open>close\<close> is one, the
  skip ends with \<open>close\<close> under the cursor, whatever \<open>c # hdr\<close> holds otherwise.
\<close>

theorem header_skip_ends_at_first_close:
  "(Tokens p = pre @ c # hdr @ close # post \<and> Pos p = Suc (length pre) \<and> Current p = c
      \<and> (\<forall>t \<in> set (c # hdr). Value t \<noteq> '')'') \<and> Value close = '')''
    \<longrightarrow> skipHeader p = p\<lparr>Current := close, Pos := length pre + length hdr + 2\<rparr>)
   \<and> (Value (Current p) = '')'' \<longrightarrow> skipHeader p = p)
   \<and> (Value (Current p) = ''}'' \<longrightarrow>
        blockLoop p kids = (kids, p) \<and> functionBlockLoop p kids = (kids, p))
   \<and> (Pos p \<le> length (Tokens p) \<longrightarrow>
        (Value (Current (skipHeader p)) = '')'' \<or> Pos (skipHeader p) = length (Tokens p))
        \<and> (Value (Current (snd (blockLoop p kids))) = ''}''
            \<or> Pos (snd (blockLoop p kids)) = length (Tokens p))
        \<and> (Value (Current (snd (functionBlockLoop p kids))) = ''}''
            \<or> Pos (snd (functionBlockLoop p kids)) = length (Tokens p)))"
  using skipHeader_first_close [of p pre c hdr close post] skipHeader_stop [of p]
    blockLoop_stop [of p kids] functionBlockLoop_stop [of p kids]
    skipHeader_end [of p] blockLoop_end [of p kids] functionBlockLoop_end [of p kids]
  by blast

theorem header_skip_ends_at_first_close_witness:
  "Tokens (headerStart nestedHeaderTokens) =
     [tkKeyword ''while'', tkPunct ''(''] @ tkPunct ''('' # [tkIdent ''x''] @ tkPunct '')'' #
     [tkPunct '')'', tkPunct ''{'', tkIdent ''a'', tkOp ''.'', tkIdent ''b'', tkOp '';'', tkPunct ''}'']
   \<and> Pos (headerStart nestedHeaderTokens) = Suc (length [tkKeyword ''while'', tkPunct ''(''])
   \<and> Current (headerStart nestedHeaderTokens) = tkPunct ''(''
   \<and> Value (tkPunct ''('') \<noteq> '')'' \<and> Value (tkIdent ''x'') \<noteq> '')'' \<and> Value (tkPunct '')'') = '')''
   \<and> skipHeader (headerStart nestedHeaderTokens) =
       (headerStart nestedHeaderTokens)\<lparr>Current := tkPunct '')'', Pos := 5\<rparr>
   \<and> Pos (headerStart nestedHeaderTokens) \<le> length (Tokens (headerStart nestedHeaderTokens))
   \<and> Value (Current (skipHeader (headerStart nestedHeaderTokens))) = '')''
   \<and> Value (Current ((parserOf [])\<lparr>Current := tkPunct '')''\<rparr>)) = '')''
   \<and> skipHeader ((parserOf [])\<lparr>Current := tkPunct '')''\<rparr>) = (parserOf [])\<lparr>Current := tkPunct '')''\<rparr>
   \<and> Value (Current ((parserOf [])\<lparr>Current := tkPunct ''}''\<rparr>)) = ''}''
   \<and> blockLoop ((parserOf [])\<lparr>Current := tkPunct ''}''\<rparr>) [] = ([], (parserOf [])\<lparr>Current := tkPunct ''}''\<rparr>)
   \<and> functionBlockLoop ((parserOf [])\<lparr>Current := tkPunct ''}''\<rparr>) [] =
       ([], (parserOf [])\<lparr>Current := tkPunct ''}''\<rparr>)"
proof -
  let ?p = "headerStart nestedHeaderTokens"
  let ?pre = "[tkKeyword ''while'', tkPunct ''('']"
  let ?post = "[tkPunct '')'', tkPunct ''{'', tkIdent ''a'', tkOp ''.'', tkIdent ''b'', tkOp '';'', tkPunct ''}'']"
  let ?q = "(parserOf [])\<lparr>Current := tkPunct '')''\<rparr>"
  let ?r = "(parserOf [])\<lparr>Current := tkPunct ''}''\<rparr>"
  have h1: "Tokens ?p = ?pre @ tkPunct ''('' # [tkIdent ''x''] @ tkPunct '')'' # ?post"
    by (simp add: headerStart_def parserOf_def nestedHeaderTokens_def)
  have h2: "Pos ?p = Suc (length ?pre)" by code_simp
  have h3: "Current ?p = tkPunct ''(''" by code_simp
  have h4: "\<forall>t \<in> set (tkPunct ''('' # [tkIdent ''x'']). Value t \<noteq> '')''"
    by (simp add: tkPunct_def tkIdent_def)
  have h5: "Value (tkPunct '')'') = '')''" by (simp add: tkPunct_def)
  have h6: "Pos ?p \<le> length (Tokens ?p)" by code_simp
  have h7: "Value (Current ?q) = '')''" by (simp add: tkPunct_def)
  have h8: "Value (Current ?r) = ''}''" by (simp add: tkPunct_def)
  from h1 h2 h3 h4 h5
    header_skip_ends_at_first_close [of ?p ?pre "tkPunct ''(''" "[tkIdent ''x'']" "tkPunct '')''" ?post "[]"]
  have c1: "skipHeader ?p = ?p\<lparr>Current := tkPunct '')'', Pos := 5\<rparr>" by simp
  then have c2: "Value (Current (skipHeader ?p)) = '')''" by (simp add: tkPunct_def)
  from h7 header_skip_ends_at_first_close [of ?q "[]" "tkPunct ''(''" "[]" "tkPunct '')''" "[]" "[]"]
  have c3: "skipHeader ?q = ?q" by blast
  from h8 header_skip_ends_at_first_close [of ?r "[]" "tkPunct ''(''" "[]" "tkPunct '')''" "[]" "[]"]
  have c4: "blockLoop ?r [] = ([], ?r) \<and> functionBlockLoop ?r [] = ([], ?r)" by blast
  from h1 h2 h3 h4 h5 h6 h7 h8 c1 c2 c3 c4 show ?thesis by simp
qed

section \<open>Statements inside blocks\<close>

lemma NType_parseVariableAccess [simp]: "NType (fst (parseVariableAccess p)) = ''MemberAccess''"
  by (simp add: parseVariableAccess_def Let_def)

lemma blockLoop_children:
  "NType ` set (fst (blockLoop p kids)) \<subseteq> NType ` set kids \<union> {''MemberAccess''}"
proof (induction p kids rule: blockLoop.induct)
  case (1 p kids)
  let ?c = "Value (Current p) \<noteq> ''}'' \<and> Pos p < length (Tokens p)"
  show ?case
  proof (cases ?c)
    case False
    then have "blockLoop p kids = (kids, p)" by (subst blockLoop.simps) auto
    then show ?thesis by auto
  next
    case True
    show ?thesis
    proof (cases "Type (Current p) = TokenIdentifier")
      case True
      have "blockLoop p kids =
          blockLoop (advance (snd (parseVariableAccess p))) (kids @ [fst (parseVariableAccess p)])"
        using \<open>?c\<close> True by (subst blockLoop.simps) simp
      moreover have "NType ` set (fst (blockLoop (advance (snd (parseVariableAccess p)))
            (kids @ [fst (parseVariableAccess p)])))
          \<subseteq> NType ` set (kids @ [fst (parseVariableAccess p)]) \<union> {''MemberAccess''}"
        using 1(1) \<open>?c\<close> True by simp
      ultimately show ?thesis by auto
    next
      case False
      have "blockLoop p kids = blockLoop (advance p) kids"
        using \<open>?c\<close> False by (subst blockLoop.simps) simp
      moreover have "NType ` set (fst (blockLoop (advance p) kids))
          \<subseteq> NType ` set kids \<union> {''MemberAccess''}"
        using 1(2) \<open>?c\<close> False by simp
      ultimately show ?thesis by simp
    qed
  qed
qed

text \<open>
  The token streams of the texts \<open>for (i) { while (j) { a.b; } }\<close> and
  \<open>function f() { while (j) { a.b; } }\<close>: the same inner loop, once in the block of a
  loop and once in the body of a function.
\<close>

definition loopInLoopTokens :: "Token list" where
  "loopInLoopTokens =
     [tkKeyword ''for'', tkPunct ''('', tkIdent ''i'', tkPunct '')'', tkPunct ''{'',
      tkKeyword ''while'', tkPunct ''('', tkIdent ''j'', tkPunct '')'', tkPunct ''{'',
      tkIdent ''a'', tkOp ''.'', tkIdent ''b'', tkOp '';'', tkPunct ''}'', tkPunct ''}'']"

definition loopInFunctionTokens :: "Token list" where
  "loopInFunctionTokens =
     [tkKeyword ''function'', tkIdent ''f'', tkPunct ''('', tkPunct '')'', tkPunct ''{'',
      tkKeyword ''while'', tkPunct ''('', tkIdent ''j'', tkPunct '')'', tkPunct ''{'',
      tkIdent ''a'', tkOp ''.'', tkIdent ''b'', tkOp '';'', tkPunct ''}'', tkPunct ''}'']"

text \<open>
  Claim C7: a \<open>for\<close>, \<open>while\<close> or \<open>if\<close> keyword inside the block of any statement, a
  loop's or a conditional's as well as a function's, is built by its statement builder
  and appended as a child of that block.

  The block loop of \<open>parseFunction\<close> does this; the block loop of \<open>parseLoop\<close> and of
  \<open>parseIfStatement\<close> looks at identifiers only. Every child of a block it builds is a
  \<open>MemberAccess\<close> node. On the first stream the inner \<open>while\<close> leaves no node: its
  header name \<open>j\<close> and the access \<open>a.b\<close> become children of the outer block. On the
  second stream the function body holds the \<open>WhileStatement\<close>.
\<close>

theorem keyword_in_loop_block_not_built:
  "NType ` set (fst (blockLoop p [])) \<subseteq> {''MemberAccess''}
   \<and> tokenize scanDigits ''for (i) { while (j) { a.b; } }'' = loopInLoopTokens
   \<and> tokenize scanDigits ''function f() { while (j) { a.b; } }'' = loopInFunctionTokens
   \<and> fst (Parse (parserOf loopInLoopTokens)) =
       Node ''Root'' []
         [Node ''ForStatement'' []
            [Node ''Block'' []
               [Node ''MemberAccess'' ''j'' [] 1,
                Node ''MemberAccess'' ''a'' [Node ''Identifier'' ''b'' [] 1] 1] 1] 1] 0
   \<and> fst (Parse (parserOf loopInFunctionTokens)) =
       Node ''Root'' []
         [Node ''FunctionDeclaration'' ''f''
            [Node ''Block'' []
               [Node ''WhileStatement'' []
                  [Node ''Block'' []
                     [Node ''MemberAccess'' ''a'' [Node ''Identifier'' ''b'' [] 1] 1] 1] 1] 1] 1] 0"
proof -
  have a: "NType ` set (fst (blockLoop p [])) \<subseteq> {''MemberAccess''}"
    using blockLoop_children [of p "[]"] by simp
  have b: "fst (Parse (parserOf loopInLoopTokens)) =
       Node ''Root'' []
         [Node ''ForStatement'' []
            [Node ''Block'' []
               [Node ''MemberAccess'' ''j'' [] 1,
                Node ''MemberAccess'' ''a'' [Node ''Identifier'' ''b'' [] 1] 1] 1] 1] 0"
    by code_simp
  have c: "fst (Parse (parserOf loopInFunctionTokens)) =
       Node ''Root'' []
         [Node ''FunctionDeclaration'' ''f''
            [Node ''Block'' []
               [Node ''WhileStatement'' []
                  [Node ''Block'' []
                     [Node ''MemberAccess'' ''a'' [Node ''Identifier'' ''b'' [] 1] 1] 1] 1] 1] 1] 0"
    by code_simp
  have d: "tokenize scanDigits ''for (i) { while (j) { a.b; } }'' = loopInLoopTokens"
    by code_simp
  have e: "tokenize scanDigits ''function f() { while (j) { a.b; } }'' = loopInFunctionTokens"
    by code_simp
  from a b c d e show ?thesis by blast
qed

section \<open>What each pass appends\<close>

lemma fold_append_Reports:
  "fold (\<lambda>e g. if P e then g\<lparr>Reports := Reports g @ [f e]\<rparr> else g) xs g =
   g\<lparr>Reports := Reports g @ map f (filter P xs)\<rparr>"
  by (induction xs arbitrary: g) simp_all

lemma generateLoopReport_eq:
  "generateLoopReport rangeOrder g storageVars location =
   g\<lparr>Reports := Reports g @ map (loopReport location) (filter (\<lambda>e. 1 < snd e) (rangeOrder storageVars))\<rparr>"
  unfolding generateLoopReport_def by (rule fold_append_Reports)

text \<open>The nodes in the order in which \<open>walkSolcAST\<close> calls \<open>fn\<close> on them.\<close>

function visit :: "SolcASTNode \<Rightarrow> SolcASTNode list" where
  "visit node =
     node # concat (map visit (Nodes node))
     @ (case Body node of None \<Rightarrow> [] | Some b \<Rightarrow> visit b)
     @ concat (map visit (Statements node))"
  by pat_completeness auto
termination
  by (relation "measure size") (auto simp: size_Nodes size_Statements size_Body)

declare visit.simps [simp del]

lemma fold_walk_children:
  "(\<And>c s. c \<in> set xs \<Longrightarrow> walkSolcAST c fn s = fold fn (visit c) s) \<Longrightarrow>
   fold (\<lambda>c. walkSolcAST c fn) xs s = fold fn (concat (map visit xs)) s"
  by (induction xs arbitrary: s) simp_all

lemma walkSolcAST_fold: "walkSolcAST node fn s = fold fn (visit node) s"
proof (induction node arbitrary: s rule: visit.induct)
  case (1 node)
  have n: "fold (\<lambda>c. walkSolcAST c fn) (Nodes node) t = fold fn (concat (map visit (Nodes node))) t" for t
    by (rule fold_walk_children) (rule 1(1))
  have st: "fold (\<lambda>c. walkSolcAST c fn) (Statements node) t = fold fn (concat (map visit (Statements node))) t" for t
    by (rule fold_walk_children) (rule 1(3))
  have b: "(case Body node of None \<Rightarrow> t | Some b \<Rightarrow> walkSolcAST b fn t)
      = fold fn (case Body node of None \<Rightarrow> [] | Some b \<Rightarrow> visit b) t" for t
    using 1(2) by (cases "Body node") simp_all
  show ?case
    by (subst walkSolcAST.simps, subst visit.simps) (simp add: n st b Let_def)
qed

lemma fold_emit:
  "(\<And>n g. fn n g = g\<lparr>Reports := Reports g @ E n\<rparr>) \<Longrightarrow>
   fold fn ns g = g\<lparr>Reports := Reports g @ concat (map E ns)\<rparr>"
  by (induction ns arbitrary: g) simp_all

text \<open>
  The reports that each pass appends when it is at one node: the body of the closure
  that the pass hands to \<open>walkSolcAST\<close>, or of the loop in \<open>analyzeCustomAST\<close>, with the
  appended reports as a list.
\<close>

definition loopReportsAt :: "(counts \<Rightarrow> counts) \<Rightarrow> SolcASTNode \<Rightarrow> Report list" where
  "loopReportsAt rangeOrder node =
     (if NodeType node = ''ForStatement'' \<or> NodeType node = ''WhileStatement'' then
        map (loopReport (Src node))
          (filter (\<lambda>e. 1 < snd e)
             (rangeOrder (case Body node of None \<Rightarrow> [] | Some b \<Rightarrow> collectStorageReadsSolc b [])))
      else [])"

definition typeReportsAt :: "SolcASTNode \<Rightarrow> Report list" where
  "typeReportsAt node =
     (case TypeName node of
        None \<Rightarrow> []
      | Some tn \<Rightarrow>
          (if NodeType node = ''VariableDeclaration''
              \<and> (Name tn = ''uint8'' \<or> Name tn = ''uint16'' \<or> Name tn = ''uint32'')
           then [typeReport (Name tn) node] else []))"

definition redundantReportsAt :: "(counts \<Rightarrow> counts) \<Rightarrow> SolcASTNode \<Rightarrow> Report list" where
  "redundantReportsAt rangeOrder node =
     (case Body node of
        None \<Rightarrow> []
      | Some b \<Rightarrow>
          (if NodeType node = ''FunctionDefinition'' then
             map (redundantReport (Src node))
               (filter (\<lambda>e. 1 < snd e) (rangeOrder (collectExpressions b [])))
           else []))"

definition customReportsAt :: "(counts \<Rightarrow> counts) \<Rightarrow> Node \<Rightarrow> Report list" where
  "customReportsAt rangeOrder node =
     (if NType node = ''ForStatement'' \<or> NType node = ''WhileStatement'' then
        map (loopReport (''line '' @ itoa (NLine node)))
          (filter (\<lambda>e. 1 < snd e) (rangeOrder (collectStorageReadsCustom node [])))
      else [])"

lemma checkLoopsForStorageReads_eq:
  "checkLoopsForStorageReads rangeOrder g ast =
   g\<lparr>Reports := Reports g @ concat (map (loopReportsAt rangeOrder) (visit ast))\<rparr>"
  unfolding checkLoopsForStorageReads_def walkSolcAST_fold
  by (rule fold_emit) (simp add: loopReportsAt_def generateLoopReport_eq)

lemma checkInefficientTypes_eq:
  "checkInefficientTypes g ast = g\<lparr>Reports := Reports g @ concat (map typeReportsAt (visit ast))\<rparr>"
  unfolding checkInefficientTypes_def walkSolcAST_fold
  by (rule fold_emit) (simp add: typeReportsAt_def split: option.split)

lemma checkRedundantOperations_eq:
  "checkRedundantOperations rangeOrder g ast =
   g\<lparr>Reports := Reports g @ concat (map (redundantReportsAt rangeOrder) (visit ast))\<rparr>"
  unfolding checkRedundantOperations_def walkSolcAST_fold
  by (rule fold_emit) (simp add: redundantReportsAt_def fold_append_Reports split: option.split)

lemma analyzeCustomAST_eq:
  "analyzeCustomAST rangeOrder g ast =
   g\<lparr>Reports := Reports g @ concat (map (customReportsAt rangeOrder) (Children ast))\<rparr>"
  unfolding analyzeCustomAST_def
  by (rule fold_emit) (simp add: customReportsAt_def generateLoopReport_eq)

lemma analyzeSolcAST_eq:
  "analyzeSolcAST rangeOrder decode g ast =
   g\<lparr>Reports := Reports g
      @ concat (map (loopReportsAt rangeOrder) (visit (decode ast)))
      @ concat (map typeReportsAt (visit (decode ast)))
      @ concat (map (redundantReportsAt rangeOrder) (visit (decode ast)))\<rparr>"
  by (simp add: analyzeSolcAST_def Let_def checkLoopsForStorageReads_eq checkInefficientTypes_eq
      checkRedundantOperations_eq)

section \<open>What the counts are\<close>
















section \<open>Loops that the fallback analysis reaches\<close>

text \<open>
  The token stream of the text \<open>for (i) { a.b; a.b; }\<close>, alone and as the body of a
  function \<open>f\<close>, and the analyzer that \<open>NewGasOptimizer\<close> returns on the fallback path
  for a stream.
\<close>

definition readsLoopTokens :: "Token list" where
  "readsLoopTokens =
     [tkKeyword ''for'', tkPunct ''('', tkIdent ''i'', tkPunct '')'', tkPunct ''{'',
      tkIdent ''a'', tkOp ''.'', tkIdent ''b'', tkOp '';'',
      tkIdent ''a'', tkOp ''.'', tkIdent ''b'', tkOp '';'', tkPunct ''}'']"

definition readsLoopInFunctionTokens :: "Token list" where
  "readsLoopInFunctionTokens =
     [tkKeyword ''function'', tkIdent ''f'', tkPunct ''('', tkPunct '')'', tkPunct ''{'']
     @ readsLoopTokens @ [tkPunct ''}'']"

definition readsLoopNode :: Node where
  "readsLoopNode =
     Node ''ForStatement'' []
       [Node ''Block'' []
          [Node ''MemberAccess'' ''a'' [Node ''Identifier'' ''b'' [] 1] 1,
           Node ''MemberAccess'' ''a'' [Node ''Identifier'' ''b'' [] 1] 1] 1] 1"

definition fallbackOptimizer :: "Token list \<Rightarrow> 'j GasOptimizer" where
  "fallbackOptimizer ts =
     \<lparr>GSource = [], AST = CustomAST (fst (Parse (parserOf ts))), Reports = []\<rparr>"

text \<open>
  Claim C3: the loop pass examines every loop anywhere in the tree; on a fallback tree
  a loop that is a child of a function body, not of the root, is still analyzed and can
  produce a report.

  \<open>analyzeCustomAST\<close> ranges over the children of the root only: its reports are those
  of the root's children that are loops, and a loop further down is never looked at.
  The loop that reads \<open>a.b\<close> twice yields the report with savings 797 when it is a child
  of the root, and no report when the parser has put the same node into the body of a
  function, whatever order the runtime ranges in. The pass over the compiler's tree
  walks every depth, and the parser does build loops inside function bodies.
\<close>

theorem loop_in_function_body_not_analyzed:
  "Reports (analyzeCustomAST rangeOrder g root) =
     Reports g @ concat (map (customReportsAt rangeOrder) (Children root))
   \<and> tokenize scanDigits ''for (i) { a.b; a.b; }'' = readsLoopTokens
   \<and> tokenize scanDigits ''function f() { for (i) { a.b; a.b; } }'' = readsLoopInFunctionTokens
   \<and> fst (Parse (parserOf readsLoopTokens)) = Node ''Root'' [] [readsLoopNode] 0
   \<and> fst (Parse (parserOf readsLoopInFunctionTokens)) =
       Node ''Root'' [] [Node ''FunctionDeclaration'' ''f'' [Node ''Block'' [] [readsLoopNode] 1] 1] 0
   \<and> collectStorageReadsCustom readsLoopNode [] = [(''a.b'', 2)]
   \<and> Reports (Analyze (\<lambda>m. m) decode (fallbackOptimizer readsLoopTokens)) =
       [loopReport ''line 1'' (''a.b'', 2)]
   \<and> GasSavings (loopReport ''line 1'' (''a.b'', 2)) = 797
   \<and> Reports (Analyze rangeOrder decode (fallbackOptimizer readsLoopInFunctionTokens)) = []"
proof -
  have a: "fst (Parse (parserOf readsLoopTokens)) = Node ''Root'' [] [readsLoopNode] 0"
    by code_simp
  have b: "fst (Parse (parserOf readsLoopInFunctionTokens)) =
       Node ''Root'' [] [Node ''FunctionDeclaration'' ''f'' [Node ''Block'' [] [readsLoopNode] 1] 1] 0"
    by code_simp
  have c: "collectStorageReadsCustom readsLoopNode [] = [(''a.b'', 2)]" by code_simp
  have d: "Reports (Analyze (\<lambda>m. m) decode (fallbackOptimizer readsLoopTokens)) =
       [loopReport ''line 1'' (''a.b'', 2)]"
    by code_simp
  have e: "GasSavings (loopReport ''line 1'' (''a.b'', 2)) = 797" by code_simp
  have f: "Reports (Analyze rangeOrder decode (fallbackOptimizer readsLoopInFunctionTokens)) = []"
    by code_simp
  have h: "Reports (analyzeCustomAST rangeOrder g root) =
     Reports g @ concat (map (customReportsAt rangeOrder) (Children root))"
    by (simp add: analyzeCustomAST_eq)
  have i: "tokenize scanDigits ''for (i) { a.b; a.b; }'' = readsLoopTokens" by code_simp
  have j: "tokenize scanDigits ''function f() { for (i) { a.b; a.b; } }'' = readsLoopInFunctionTokens"
    by code_simp
  from a b c d e f h i j show ?thesis by blast
qed

section \<open>Trees of the compiler's shape\<close>

text \<open>
  Nodes as the decoder leaves them: the fields that the document gives, every other
  field at its zero value.
\<close>

definition mkIdentifier :: "string \<Rightarrow> SolcASTNode" where
  "mkIdentifier n =
     SolcASTNode ''Identifier'' n [] [] None [] None None None None None None None None None None
       False 0 [] []"

definition mkLiteral :: "string \<Rightarrow> SolcASTNode" where
  "mkLiteral v =
     SolcASTNode ''Literal'' [] [] [] None [] None None None None None None None None None None
       False 0 [] v"

definition mkIndexAccess :: "SolcASTNode \<Rightarrow> SolcASTNode \<Rightarrow> SolcASTNode" where
  "mkIndexAccess b i =
     SolcASTNode ''IndexAccess'' [] [] [] None [] None None None None None None (Some i) (Some b)
       None None False 0 [] []"

definition mkVarDeclStmt :: "SolcASTNode \<Rightarrow> SolcASTNode" where
  "mkVarDeclStmt iv =
     SolcASTNode ''VariableDeclarationStatement'' [] [] [] None [] None (Some iv) None None None
       None None None None None False 0 [] []"

definition mkBlock :: "SolcASTNode list \<Rightarrow> SolcASTNode" where
  "mkBlock stmts =
     SolcASTNode ''Block'' [] [] [] None stmts None None None None None None None None None None
       False 0 [] []"

definition mkFor :: "string \<Rightarrow> SolcASTNode \<Rightarrow> SolcASTNode" where
  "mkFor src body =
     SolcASTNode ''ForStatement'' [] src [] (Some body) [] None None None None None None None None
       None None False 0 [] []"

definition mkBinary :: "SolcASTNode \<Rightarrow> string \<Rightarrow> SolcASTNode \<Rightarrow> SolcASTNode" where
  "mkBinary l oper r =
     SolcASTNode ''BinaryOperation'' [] [] [] None [] None None None None None None None None
       (Some l) (Some r) False 0 oper []"

definition mkReturn :: "SolcASTNode \<Rightarrow> SolcASTNode" where
  "mkReturn e =
     SolcASTNode ''Return'' [] [] [] None [] (Some e) None None None None None None None None None
       False 0 [] []"

definition mkFunction :: "string \<Rightarrow> string \<Rightarrow> SolcASTNode \<Rightarrow> SolcASTNode" where
  "mkFunction n src body =
     SolcASTNode ''FunctionDefinition'' n src [] (Some body) [] None None None None None None None
       None None None False 0 [] []"

definition mkVarDecl :: "string \<Rightarrow> string \<Rightarrow> string \<Rightarrow> SolcASTNode" where
  "mkVarDecl ty n src =
     SolcASTNode ''VariableDeclaration'' n src [] None [] None None
       (Some (SolcASTNode ''ElementaryTypeName'' ty [] [] None [] None None None None None None
                None None None None False 0 [] []))
       None None None None None None None False 0 [] []"

definition mkContract :: "string \<Rightarrow> SolcASTNode list \<Rightarrow> SolcASTNode" where
  "mkContract n nodes =
     SolcASTNode ''ContractDefinition'' n [] nodes None [] None None None None None None None None
       None None False 0 [] []"

definition mkSourceUnit :: "SolcASTNode list \<Rightarrow> SolcASTNode" where
  "mkSourceUnit nodes =
     SolcASTNode ''SourceUnit'' [] [] nodes None [] None None None None None None None None None
       None False 0 [] []"


text \<open>
  The analyzer that \<open>NewGasOptimizer\<close> returns for a tree, when the decoded document is
  the tree itself.
\<close>

definition solcOptimizer :: "SolcASTNode \<Rightarrow> SolcASTNode GasOptimizer" where
  "solcOptimizer t = \<lparr>GSource = [], AST = SolcAST t, Reports = []\<rparr>"

lemma mset_id_order: "\<forall>m :: counts. mset (id m) = mset m"
  by simp





section \<open>The loop pass on the compiler's tree\<close>

text \<open>
  A declaration statement \<open>uint x = b[i]\<close>, and the loop whose body declares from
  \<open>data[i]\<close> twice and from \<open>data[j]\<close> once.
\<close>

definition readOf :: "string \<Rightarrow> string \<Rightarrow> SolcASTNode" where
  "readOf b i = mkVarDeclStmt (mkIndexAccess (mkIdentifier b) (mkIdentifier i))"









section \<open>The pass for repeated expressions\<close>

text \<open>
  The expressions \<open>a * 2\<close> and \<open>2 * a\<close>; the body \<open>uint b = a * 2; return b + a * 2;\<close> and
  the body \<open>uint b = a * 2; return 2 * a;\<close>.
\<close>

definition timesTwo :: SolcASTNode where
  "timesTwo = mkBinary (mkIdentifier ''a'') ''*'' (mkLiteral ''2'')"

definition twoTimes :: SolcASTNode where
  "twoTimes = mkBinary (mkLiteral ''2'') ''*'' (mkIdentifier ''a'')"

definition repeatedBody :: SolcASTNode where
  "repeatedBody =
     mkBlock [mkVarDeclStmt timesTwo, mkReturn (mkBinary (mkIdentifier ''b'') ''+'' timesTwo)]"




lemma redundantReportsAt_other:
  "NodeType node \<noteq> ''FunctionDefinition'' \<Longrightarrow> redundantReportsAt rangeOrder node = []"
  by (simp add: redundantReportsAt_def split: option.split)

















section \<open>The savings of every report\<close>

lemma loopReport_savings: "1 < snd e \<Longrightarrow> 797 \<le> GasSavings (loopReport loc e)"
  by (simp add: loopReport_def GasSload_def GasMload_def)

lemma redundantReport_savings: "1 < snd e \<Longrightarrow> 100 \<le> GasSavings (redundantReport loc e)"
  by (simp add: redundantReport_def)

lemma loopReportsAt_savings: "r \<in> set (loopReportsAt rangeOrder node) \<Longrightarrow> 797 \<le> GasSavings r"
  by (auto simp: loopReportsAt_def loopReport_savings split: if_splits)

lemma typeReportsAt_savings: "r \<in> set (typeReportsAt node) \<Longrightarrow> GasSavings r = 200"
  by (auto simp: typeReportsAt_def typeReport_def split: option.splits if_splits)

lemma redundantReportsAt_savings:
  "r \<in> set (redundantReportsAt rangeOrder node) \<Longrightarrow> 100 \<le> GasSavings r"
  by (auto simp: redundantReportsAt_def redundantReport_savings split: option.splits if_splits)

lemma customReportsAt_savings: "r \<in> set (customReportsAt rangeOrder node) \<Longrightarrow> 797 \<le> GasSavings r"
  by (auto simp: customReportsAt_def loopReport_savings split: if_splits)

lemma Analyze_eq:
  "Reports (Analyze rangeOrder decode g) =
   Reports g @
   (case AST g of
      NilAST \<Rightarrow> []
    | CustomAST root \<Rightarrow> concat (map (customReportsAt rangeOrder) (Children root))
    | SolcAST ast \<Rightarrow>
        concat (map (loopReportsAt rangeOrder) (visit (decode ast)))
        @ concat (map typeReportsAt (visit (decode ast)))
        @ concat (map (redundantReportsAt rangeOrder) (visit (decode ast))))"
  by (simp add: Analyze_def analyzeCustomAST_eq analyzeSolcAST_eq split: AST.split)

text \<open>
  The tree of the contract in the repository's README: a mapping \<open>data\<close>, a \<open>uint8\<close>
  variable \<open>smallNum\<close>, a function whose loop declares from \<open>data[i]\<close> twice, and a
  function that computes \<open>a * 2\<close> twice.
\<close>

definition mkMappingDecl :: "string \<Rightarrow> string \<Rightarrow> SolcASTNode" where
  "mkMappingDecl n src =
     SolcASTNode ''VariableDeclaration'' n src [] None [] None None
       (Some (SolcASTNode ''Mapping'' [] [] [] None [] None None None None None None
                None None None None False 0 [] []))
       None None None None None None None False 0 [] []"

definition readmeTree :: SolcASTNode where
  "readmeTree =
     mkSourceUnit
       [mkContract ''Example''
          [mkMappingDecl ''data'' ''48:33:0'',
           mkVarDecl ''uint8'' ''smallNum'' ''87:21:0'',
           mkFunction ''expensiveLoop'' ''135:179:0''
             (mkBlock [mkFor ''183:125:0'' (mkBlock [readOf ''data'' ''i'', readOf ''data'' ''i''])]),
           mkFunction ''redundantCalc'' ''320:140:0'' repeatedBody]]"

lemma readme_reports:
  "Reports (Analyze id id (solcOptimizer readmeTree)) =
   [loopReport ''183:125:0'' (''data[i]'', 2),
    typeReport ''uint8'' (mkVarDecl ''uint8'' ''smallNum'' ''87:21:0''),
    redundantReport ''320:140:0'' (''a * 2'', 2)]"
  by code_simp

text \<open>
  Claim C10: every report ever appended has strictly positive savings: at least 797 for a
  loop report, exactly 200 for a type report, at least 100 for a report of a repeated
  expression.

  Each pass leaves the reports it finds in place and appends its own, whatever the order
  in which the runtime ranges over a map. A report is appended only for a count above 1,
  which gives the bounds. A count is at most the number of nodes of a tree held in
  memory, far below the range of \<open>int\<close>, so the products are the mathematical ones.
\<close>

theorem reports_have_positive_savings:
 "(\<exists>new. Reports (checkLoopsForStorageReads rangeOrder g ast) = Reports g @ new
           \<and> (\<forall>r \<in> set new. 797 \<le> GasSavings r))
  \<and> (\<exists>new. Reports (checkInefficientTypes g ast) = Reports g @ new
           \<and> (\<forall>r \<in> set new. GasSavings r = 200))
  \<and> (\<exists>new. Reports (checkRedundantOperations rangeOrder g ast) = Reports g @ new
           \<and> (\<forall>r \<in> set new. 100 \<le> GasSavings r))
  \<and> (\<exists>new. Reports (analyzeCustomAST rangeOrder g root) = Reports g @ new
           \<and> (\<forall>r \<in> set new. 797 \<le> GasSavings r))
  \<and> (\<exists>new. Reports (Analyze rangeOrder decode g) = Reports g @ new
           \<and> (\<forall>r \<in> set new. 0 < GasSavings r))"
proof -
  have a: "\<exists>new. Reports (checkLoopsForStorageReads rangeOrder g ast) = Reports g @ new
           \<and> (\<forall>r \<in> set new. 797 \<le> GasSavings r)"
    by (rule exI [where x = "concat (map (loopReportsAt rangeOrder) (visit ast))"])
       (auto simp: checkLoopsForStorageReads_eq loopReportsAt_savings)
  have b: "\<exists>new. Reports (checkInefficientTypes g ast) = Reports g @ new
           \<and> (\<forall>r \<in> set new. GasSavings r = 200)"
    by (rule exI [where x = "concat (map typeReportsAt (visit ast))"])
       (auto simp: checkInefficientTypes_eq typeReportsAt_savings)
  have c: "\<exists>new. Reports (checkRedundantOperations rangeOrder g ast) = Reports g @ new
           \<and> (\<forall>r \<in> set new. 100 \<le> GasSavings r)"
    by (rule exI [where x = "concat (map (redundantReportsAt rangeOrder) (visit ast))"])
       (auto simp: checkRedundantOperations_eq redundantReportsAt_savings)
  have d: "\<exists>new. Reports (analyzeCustomAST rangeOrder g root) = Reports g @ new
           \<and> (\<forall>r \<in> set new. 797 \<le> GasSavings r)"
    by (rule exI [where x = "concat (map (customReportsAt rangeOrder) (Children root))"])
       (auto simp: analyzeCustomAST_eq customReportsAt_savings)
  have e: "\<exists>new. Reports (Analyze rangeOrder decode g) = Reports g @ new
           \<and> (\<forall>r \<in> set new. 0 < GasSavings r)"
  proof (intro exI conjI ballI)
    show "Reports (Analyze rangeOrder decode g) = Reports g @
       (case AST g of
          NilAST \<Rightarrow> []
        | CustomAST root \<Rightarrow> concat (map (customReportsAt rangeOrder) (Children root))
        | SolcAST ast \<Rightarrow>
            concat (map (loopReportsAt rangeOrder) (visit (decode ast)))
            @ concat (map typeReportsAt (visit (decode ast)))
            @ concat (map (redundantReportsAt rangeOrder) (visit (decode ast))))"
      by (rule Analyze_eq)
  next
    fix r
    assume "r \<in> set (case AST g of
          NilAST \<Rightarrow> []
        | CustomAST root \<Rightarrow> concat (map (customReportsAt rangeOrder) (Children root))
        | SolcAST ast \<Rightarrow>
            concat (map (loopReportsAt rangeOrder) (visit (decode ast)))
            @ concat (map typeReportsAt (visit (decode ast)))
            @ concat (map (redundantReportsAt rangeOrder) (visit (decode ast))))"
    then show "0 < GasSavings r"
      by (cases "AST g")
         (auto dest: loopReportsAt_savings typeReportsAt_savings redundantReportsAt_savings
            customReportsAt_savings)
  qed
  from a b c d e show ?thesis by blast
qed

theorem reports_have_positive_savings_witness:
  "map GasSavings (Reports (Analyze id id (solcOptimizer readmeTree))) = [797, 200, 100]
   \<and> Reports (solcOptimizer readmeTree) = []
   \<and> loopReport ''183:125:0'' (''data[i]'', 2) \<in> set (Reports (Analyze id id (solcOptimizer readmeTree)))
   \<and> 0 < GasSavings (loopReport ''183:125:0'' (''data[i]'', 2))"
proof -
  let ?g = "solcOptimizer readmeTree"
  have e: "Reports ?g = []" by (simp add: solcOptimizer_def)
  from reports_have_positive_savings [of id ?g readmeTree "Node [] [] [] 0" id]
  obtain new where n: "Reports (Analyze id id ?g) = Reports ?g @ new"
    and p: "\<forall>r \<in> set new. 0 < GasSavings r"
    by blast
  from n e have m: "new = Reports (Analyze id id ?g)" by simp
  have i: "loopReport ''183:125:0'' (''data[i]'', 2) \<in> set (Reports (Analyze id id ?g))"
    by (simp add: readme_reports)
  with p m have q: "0 < GasSavings (loopReport ''183:125:0'' (''data[i]'', 2))" by simp
  have v: "map GasSavings (Reports (Analyze id id ?g)) = [797, 200, 100]" by code_simp
  from v e i q show ?thesis by blast
qed

section \<open>The order of the reports\<close>

text \<open>
  The loop whose body declares from \<open>data[i]\<close> twice and from \<open>data[j]\<close> twice, and the
  function whose body computes \<open>a * 2\<close> twice and \<open>2 * a\<close> twice.
\<close>

definition twoKeyLoop :: SolcASTNode where
  "twoKeyLoop =
     mkFor ''183:125:0''
       (mkBlock [readOf ''data'' ''i'', readOf ''data'' ''i'', readOf ''data'' ''j'', readOf ''data'' ''j''])"

definition twoKeyFunction :: SolcASTNode where
  "twoKeyFunction =
     mkFunction ''f'' ''320:140:0''
       (mkBlock [mkVarDeclStmt timesTwo, mkVarDeclStmt timesTwo, mkVarDeclStmt twoTimes,
                 mkVarDeclStmt twoTimes])"

lemma mset_rev_order: "\<forall>m :: counts. mset (rev m) = mset m"
  by simp

lemma mset_filtered_order:
  "mset (r1 m) = mset m \<Longrightarrow> mset (r2 m) = mset m \<Longrightarrow>
   mset (map f (filter P (r1 m))) = mset (map f (filter P (r2 m)))"
  by simp

lemma mset_loopReportsAt_order:
  assumes "\<forall>m. mset (r1 m) = mset m" "\<forall>m. mset (r2 m) = mset m"
  shows "mset (loopReportsAt r1 node) = mset (loopReportsAt r2 node)"
  by (simp add: loopReportsAt_def assms)

lemma mset_redundantReportsAt_order:
  assumes "\<forall>m. mset (r1 m) = mset m" "\<forall>m. mset (r2 m) = mset m"
  shows "mset (redundantReportsAt r1 node) = mset (redundantReportsAt r2 node)"
  by (simp add: redundantReportsAt_def assms split: option.split)

lemma mset_customReportsAt_order:
  assumes "\<forall>m. mset (r1 m) = mset m" "\<forall>m. mset (r2 m) = mset m"
  shows "mset (customReportsAt r1 node) = mset (customReportsAt r2 node)"
  by (simp add: customReportsAt_def assms)

lemma mset_concat_groups:
  "(\<And>n. mset (E1 n) = mset (E2 n)) \<Longrightarrow> mset (concat (map E1 ns)) = mset (concat (map E2 ns))"
  by (induction ns) simp_all

lemma concat_groups_le1:
  "(\<And>n. mset (E1 n) = mset (E2 n)) \<Longrightarrow> \<forall>n \<in> set ns. length (E1 n) \<le> 1 \<Longrightarrow>
   concat (map E1 ns) = concat (map E2 ns)"
proof (induction ns)
  case Nil
  show ?case by simp
next
  case (Cons n ns)
  have m: "mset (E1 n) = mset (E2 n)" by (rule Cons.prems(1))
  have "length (E1 n) \<le> 1" using Cons.prems(2) by simp
  then have "E1 n = [] \<or> (\<exists>x. E1 n = [x])"
    by (cases "E1 n") (auto simp: length_Suc_conv)
  then have "E1 n = E2 n"
  proof
    assume "E1 n = []" then show ?thesis using m by simp
  next
    assume "\<exists>x. E1 n = [x]"
    then obtain x where "E1 n = [x]" by blast
    then show ?thesis using m by simp
  qed
  moreover have "concat (map E1 ns) = concat (map E2 ns)"
    using Cons by simp
  ultimately show ?case by simp
qed

lemma mset_Analyze_order:
  assumes "\<forall>m. mset (r1 m) = mset m" "\<forall>m. mset (r2 m) = mset m"
  shows "mset (Reports (Analyze r1 decode g)) = mset (Reports (Analyze r2 decode g))"
proof -
  have l: "mset (concat (map (loopReportsAt r1) ns)) = mset (concat (map (loopReportsAt r2) ns))" for ns
    by (rule mset_concat_groups) (rule mset_loopReportsAt_order [OF assms])
  have r: "mset (concat (map (redundantReportsAt r1) ns)) = mset (concat (map (redundantReportsAt r2) ns))" for ns
    by (rule mset_concat_groups) (rule mset_redundantReportsAt_order [OF assms])
  have c: "mset (concat (map (customReportsAt r1) ns)) = mset (concat (map (customReportsAt r2) ns))" for ns
    by (rule mset_concat_groups) (rule mset_customReportsAt_order [OF assms])
  show ?thesis
    by (cases "AST g") (simp_all only: Analyze_eq AST.case mset_append l r c)
qed

lemma Analyze_same_le1:
  assumes "\<forall>m. mset (r1 m) = mset m" "\<forall>m. mset (r2 m) = mset m"
      and "AST g = SolcAST ast"
      and "\<forall>n \<in> set (visit (decode ast)). length (loopReportsAt r1 n) \<le> 1 \<and> length (redundantReportsAt r1 n) \<le> 1"
  shows "Reports (Analyze r1 decode g) = Reports (Analyze r2 decode g)"
proof -
  have l: "concat (map (loopReportsAt r1) (visit (decode ast)))
      = concat (map (loopReportsAt r2) (visit (decode ast)))"
  proof (rule concat_groups_le1)
    fix n show "mset (loopReportsAt r1 n) = mset (loopReportsAt r2 n)"
      by (rule mset_loopReportsAt_order [OF assms(1,2)])
  next
    show "\<forall>n \<in> set (visit (decode ast)). length (loopReportsAt r1 n) \<le> 1"
      using assms(4) by blast
  qed
  have r: "concat (map (redundantReportsAt r1) (visit (decode ast)))
      = concat (map (redundantReportsAt r2) (visit (decode ast)))"
  proof (rule concat_groups_le1)
    fix n show "mset (redundantReportsAt r1 n) = mset (redundantReportsAt r2 n)"
      by (rule mset_redundantReportsAt_order [OF assms(1,2)])
  next
    show "\<forall>n \<in> set (visit (decode ast)). length (redundantReportsAt r1 n) \<le> 1"
      using assms(4) by blast
  qed
  show ?thesis by (simp add: Analyze_eq assms(3) l r)
qed

lemma Analyze_same_le1_custom:
  assumes "\<forall>m. mset (r1 m) = mset m" "\<forall>m. mset (r2 m) = mset m"
      and "AST g = CustomAST root"
      and "\<forall>n \<in> set (Children root). length (customReportsAt r1 n) \<le> 1"
  shows "Reports (Analyze r1 decode g) = Reports (Analyze r2 decode g)"
proof -
  have "concat (map (customReportsAt r1) (Children root))
      = concat (map (customReportsAt r2) (Children root))"
  proof (rule concat_groups_le1)
    fix n show "mset (customReportsAt r1 n) = mset (customReportsAt r2 n)"
      by (rule mset_customReportsAt_order [OF assms(1,2)])
  next
    show "\<forall>n \<in> set (Children root). length (customReportsAt r1 n) \<le> 1"
      using assms(4) by blast
  qed
  then show ?thesis by (simp add: Analyze_eq assms(3))
qed

text \<open>
  Claim C9, as stated: two runs of \<open>Analyze\<close> on the same tree produce identical report
  lists, in the same order, also when one loop body or one function body yields several
  keys counted more than once.

  Go does not fix the order in which \<open>range\<close> visits a map, and the passes append in that
  order. With the entries visited as they were inserted in one run and in the opposite
  order in the other, the two reports of the loop, and the two of the function, come out
  in opposite orders.
\<close>

theorem Analyze_order_counterexample:
  "Reports (Analyze id id (solcOptimizer twoKeyLoop)) =
     [loopReport ''183:125:0'' (''data[i]'', 2), loopReport ''183:125:0'' (''data[j]'', 2)]
   \<and> Reports (Analyze rev id (solcOptimizer twoKeyLoop)) =
     [loopReport ''183:125:0'' (''data[j]'', 2), loopReport ''183:125:0'' (''data[i]'', 2)]
   \<and> Reports (Analyze id id (solcOptimizer twoKeyLoop))
       \<noteq> Reports (Analyze rev id (solcOptimizer twoKeyLoop))
   \<and> Reports (Analyze id id (solcOptimizer twoKeyFunction)) =
     [redundantReport ''320:140:0'' (''a * 2'', 2), redundantReport ''320:140:0'' (''2 * a'', 2)]
   \<and> Reports (Analyze rev id (solcOptimizer twoKeyFunction)) =
     [redundantReport ''320:140:0'' (''2 * a'', 2), redundantReport ''320:140:0'' (''a * 2'', 2)]
   \<and> Reports (Analyze id id (solcOptimizer twoKeyFunction))
       \<noteq> Reports (Analyze rev id (solcOptimizer twoKeyFunction))"
proof -
  have a: "Reports (Analyze id id (solcOptimizer twoKeyLoop)) =
     [loopReport ''183:125:0'' (''data[i]'', 2), loopReport ''183:125:0'' (''data[j]'', 2)]"
    by code_simp
  have b: "Reports (Analyze rev id (solcOptimizer twoKeyLoop)) =
     [loopReport ''183:125:0'' (''data[j]'', 2), loopReport ''183:125:0'' (''data[i]'', 2)]"
    by code_simp
  have c: "loopReport ''183:125:0'' (''data[i]'', 2) \<noteq> loopReport ''183:125:0'' (''data[j]'', 2)"
    by (simp add: loopReport_def quoted_def)
  from c have "[loopReport ''183:125:0'' (''data[i]'', 2), loopReport ''183:125:0'' (''data[j]'', 2)]
      \<noteq> [loopReport ''183:125:0'' (''data[j]'', 2), loopReport ''183:125:0'' (''data[i]'', 2)]"
    by simp
  with a b have d: "Reports (Analyze id id (solcOptimizer twoKeyLoop))
       \<noteq> Reports (Analyze rev id (solcOptimizer twoKeyLoop))"
    by (simp only: simp_thms)
  have e: "Reports (Analyze id id (solcOptimizer twoKeyFunction)) =
     [redundantReport ''320:140:0'' (''a * 2'', 2), redundantReport ''320:140:0'' (''2 * a'', 2)]"
    by code_simp
  have f: "Reports (Analyze rev id (solcOptimizer twoKeyFunction)) =
     [redundantReport ''320:140:0'' (''2 * a'', 2), redundantReport ''320:140:0'' (''a * 2'', 2)]"
    by code_simp
  have g: "redundantReport ''320:140:0'' (''a * 2'', 2) \<noteq> redundantReport ''320:140:0'' (''2 * a'', 2)"
    by (simp add: redundantReport_def quoted_def)
  from g have "[redundantReport ''320:140:0'' (''a * 2'', 2), redundantReport ''320:140:0'' (''2 * a'', 2)]
      \<noteq> [redundantReport ''320:140:0'' (''2 * a'', 2), redundantReport ''320:140:0'' (''a * 2'', 2)]"
    by simp
  with e f have h: "Reports (Analyze id id (solcOptimizer twoKeyFunction))
       \<noteq> Reports (Analyze rev id (solcOptimizer twoKeyFunction))"
    by (simp only: simp_thms)
  from a b d e f h show ?thesis by blast
qed

text \<open>
  Claim C9, amended: \<open>Analyze\<close> is deterministic up to the order in which the reports of
  one loop body, or of one function body, are appended. Two runs on the same tree,
  whatever order the runtime ranges in (\<open>r1\<close> in one run, \<open>r2\<close> in the other, each
  permuting the entries of a map), produce the same reports with the same
  multiplicities. The groups of reports follow the walk: for the compiler's tree the
  loop reports node by node, then the type reports, then the reports of repeated
  expressions; for the fallback tree the loop reports child by child. Corresponding
  groups are equal up to order, and when no group holds more than one report the two
  lists are identical.
\<close>

theorem Analyze_deterministic_up_to_range_order:
  assumes "\<forall>m. mset (r1 m) = mset m" and "\<forall>m. mset (r2 m) = mset m"
  shows "Reports (Analyze r1 decode g) =
           Reports g @
           (case AST g of
              NilAST \<Rightarrow> []
            | CustomAST root \<Rightarrow> concat (map (customReportsAt r1) (Children root))
            | SolcAST ast \<Rightarrow>
                concat (map (loopReportsAt r1) (visit (decode ast)))
                @ concat (map typeReportsAt (visit (decode ast)))
                @ concat (map (redundantReportsAt r1) (visit (decode ast))))
         \<and> mset (loopReportsAt r1 node) = mset (loopReportsAt r2 node)
         \<and> mset (redundantReportsAt r1 node) = mset (redundantReportsAt r2 node)
         \<and> mset (customReportsAt r1 child) = mset (customReportsAt r2 child)
         \<and> mset (Reports (Analyze r1 decode g)) = mset (Reports (Analyze r2 decode g))
         \<and> (AST g = SolcAST ast
              \<and> (\<forall>n \<in> set (visit (decode ast)).
                    length (loopReportsAt r1 n) \<le> 1 \<and> length (redundantReportsAt r1 n) \<le> 1)
            \<longrightarrow> Reports (Analyze r1 decode g) = Reports (Analyze r2 decode g))
         \<and> (AST g = CustomAST root
              \<and> (\<forall>n \<in> set (Children root). length (customReportsAt r1 n) \<le> 1)
            \<longrightarrow> Reports (Analyze r1 decode g) = Reports (Analyze r2 decode g))"
proof -
  note a = Analyze_eq [of r1 decode g]
  note b = mset_loopReportsAt_order [OF assms, of node]
  note c = mset_redundantReportsAt_order [OF assms, of node]
  note d = mset_customReportsAt_order [OF assms, of child]
  note e = mset_Analyze_order [OF assms, of decode g]
  have f: "Reports (Analyze r1 decode g) = Reports (Analyze r2 decode g)"
    if "AST g = SolcAST ast"
       "\<forall>n \<in> set (visit (decode ast)).
          length (loopReportsAt r1 n) \<le> 1 \<and> length (redundantReportsAt r1 n) \<le> 1"
    using assms that by (rule Analyze_same_le1)
  have h: "Reports (Analyze r1 decode g) = Reports (Analyze r2 decode g)"
    if "AST g = CustomAST root" "\<forall>n \<in> set (Children root). length (customReportsAt r1 n) \<le> 1"
    using assms that by (rule Analyze_same_le1_custom)
  from a b c d e f h show ?thesis by blast
qed

theorem Analyze_deterministic_up_to_range_order_witness:
  "mset (Reports (Analyze id id (solcOptimizer twoKeyLoop))) =
     mset (Reports (Analyze rev id (solcOptimizer twoKeyLoop)))
   \<and> AST (solcOptimizer readmeTree) = SolcAST readmeTree
   \<and> list_all (\<lambda>n. length (loopReportsAt id n) \<le> 1 \<and> length (redundantReportsAt id n) \<le> 1)
        (visit (id readmeTree))
   \<and> Reports (Analyze id id (solcOptimizer readmeTree)) =
       Reports (Analyze rev id (solcOptimizer readmeTree))
   \<and> AST (fallbackOptimizer readsLoopTokens :: unit GasOptimizer) =
       CustomAST (Node ''Root'' [] [readsLoopNode] 0)
   \<and> list_all (\<lambda>n. length (customReportsAt id n) \<le> 1) [readsLoopNode]
   \<and> Reports (Analyze id (\<lambda>u :: unit. twoKeyLoop) (fallbackOptimizer readsLoopTokens :: unit GasOptimizer)) =
       Reports (Analyze rev (\<lambda>u :: unit. twoKeyLoop) (fallbackOptimizer readsLoopTokens :: unit GasOptimizer))"
proof -
  let ?g = "solcOptimizer twoKeyLoop"
  let ?h = "solcOptimizer readmeTree"
  let ?f = "fallbackOptimizer readsLoopTokens :: unit GasOptimizer"
  let ?root = "Node ''Root'' [] [readsLoopNode] 0"
  have h1: "AST ?h = SolcAST readmeTree" by (simp add: solcOptimizer_def)
  have h2: "list_all (\<lambda>n. length (loopReportsAt id n) \<le> 1 \<and> length (redundantReportsAt id n) \<le> 1)
        (visit (id readmeTree))"
    by code_simp
  have h3: "AST ?f = CustomAST ?root" by code_simp
  have h4: "list_all (\<lambda>n. length (customReportsAt id n) \<le> 1) [readsLoopNode]" by code_simp
  have b2: "\<forall>n \<in> set (visit (id readmeTree)).
      length (loopReportsAt id n) \<le> 1 \<and> length (redundantReportsAt id n) \<le> 1"
    using h2 by (simp only: list_all_iff)
  have b4: "\<forall>n \<in> set (Children ?root). length (customReportsAt id n) \<le> 1"
    using h4 by (simp only: list_all_iff Node.sel)
  have c1: "mset (Reports (Analyze id id ?g)) = mset (Reports (Analyze rev id ?g))"
    using Analyze_deterministic_up_to_range_order [OF mset_id_order mset_rev_order,
        of id ?g twoKeyLoop readsLoopNode twoKeyLoop ?root]
    by blast
  have c2: "Reports (Analyze id id ?h) = Reports (Analyze rev id ?h)"
    using h1 b2
      Analyze_deterministic_up_to_range_order [OF mset_id_order mset_rev_order,
        of id ?h readmeTree readsLoopNode readmeTree ?root]
    by blast
  have c3: "Reports (Analyze id (\<lambda>u :: unit. twoKeyLoop) ?f) = Reports (Analyze rev (\<lambda>u :: unit. twoKeyLoop) ?f)"
    using h3 b4
      Analyze_deterministic_up_to_range_order [OF mset_id_order mset_rev_order,
        of "\<lambda>u :: unit. twoKeyLoop" ?f twoKeyLoop readsLoopNode "()" ?root]
    by blast
  from h1 h2 h3 h4 c1 c2 c3 show ?thesis by blast
qed

section \<open>What construction does when the compiler fails\<close>

text \<open>
  Four environments for the file \<open>Example.sol\<close>, which holds a loop reading \<open>a.b\<close> twice:
  \<open>solc\<close> cannot be run; \<open>solc\<close> runs and prints no tree; \<open>solc\<close> prints a document that
  does not decode; \<open>solc\<close> prints the tree of the README.
\<close>

definition exampleSource :: string where
  "exampleSource = ''for (i) { a.b; a.b; }''"

definition solcMissingEnv :: "SolcASTNode Env" where
  "solcMissingEnv =
     \<lparr>readFile = (\<lambda>path. Some exampleSource), runSolc = (\<lambda>path. None),
      findSubmatch = (\<lambda>out. None), unmarshal = (\<lambda>doc. None)\<rparr>"

definition noTreeEnv :: "SolcASTNode Env" where
  "noTreeEnv =
     \<lparr>readFile = (\<lambda>path. Some exampleSource), runSolc = (\<lambda>path. Some ''Compiler run successful''),
      findSubmatch = (\<lambda>out. None), unmarshal = (\<lambda>doc. None)\<rparr>"

definition badTreeEnv :: "SolcASTNode Env" where
  "badTreeEnv =
     \<lparr>readFile = (\<lambda>path. Some exampleSource),
      runSolc = (\<lambda>path. Some ''JSON AST (compact format): {nodeType}''),
      findSubmatch = (\<lambda>out. Some ''{nodeType}''), unmarshal = (\<lambda>doc. None)\<rparr>"

definition goodTreeEnv :: "SolcASTNode Env" where
  "goodTreeEnv =
     \<lparr>readFile = (\<lambda>path. Some exampleSource),
      runSolc = (\<lambda>path. Some ''JSON AST (compact format): {...}''),
      findSubmatch = (\<lambda>out. Some ''{...}''), unmarshal = (\<lambda>doc. Some readmeTree)\<rparr>"

lemma exampleSource_tokens: "tokenize scanDigits exampleSource = readsLoopTokens"
  by code_simp

text \<open>
  Claim C1, as stated: whenever the invocation of the external tool fails at any stage
  (it could not be invoked, it exited with failure, its output holds no locatable tree,
  or the tree does not decode), construction falls back to the lexer and parser and
  returns a usable analyzer; no such failure is an error for the caller.

  \<open>NewGasOptimizer\<close> falls back only when running the tool returns an error. When the
  tool ran and the regular expression finds no tree, or \<open>json.Unmarshal\<close> fails, it
  returns \<open>nil\<close> with an error, which \<open>main\<close> treats as fatal.
\<close>

theorem NewGasOptimizer_fallback_counterexample:
  "NewGasOptimizer scanDigits noTreeEnv ''Example.sol'' = Inl (NoJSONFound ''Compiler run successful'')
   \<and> NewGasOptimizer scanDigits badTreeEnv ''Example.sol'' = Inl (ASTParseFailed ''{nodeType}'')"
  by (simp add: NewGasOptimizer_def noTreeEnv_def badTreeEnv_def)

text \<open>
  Claim C1, amended: when the external tool could not be invoked or exited with failure,
  construction runs the fallback lexer and parser over the same source text and returns
  a usable analyzer, on which analysis completes with the reports of the loops that are
  children of the root; when the tool ran but its output holds no locatable tree, or the tree does not
  decode, construction returns an error to the caller and does not fall back. A file
  that cannot be read is an error as well, and a decoded tree gives an analyzer over it.
\<close>

theorem NewGasOptimizer_outcomes:
  "(readFile env filePath = None \<longrightarrow> NewGasOptimizer scanInt env filePath = Inl ReadFailed)
   \<and> (readFile env filePath = Some source \<and> runSolc env filePath = None \<longrightarrow>
        NewGasOptimizer scanInt env filePath =
          Inr \<lparr>GSource = source, AST = CustomAST (fst (Parse (NewParser scanInt source))),
               Reports = []\<rparr>
        \<and> Reports (Analyze rangeOrder decode
             \<lparr>GSource = source, AST = CustomAST (fst (Parse (NewParser scanInt source))),
              Reports = []\<rparr>) =
            concat (map (customReportsAt rangeOrder)
              (Children (fst (Parse (NewParser scanInt source))))))
   \<and> (readFile env filePath = Some source \<and> runSolc env filePath = Some output
        \<and> findSubmatch env output = None \<longrightarrow>
        NewGasOptimizer scanInt env filePath = Inl (NoJSONFound output))
   \<and> (readFile env filePath = Some source \<and> runSolc env filePath = Some output
        \<and> findSubmatch env output = Some jsonData \<and> unmarshal env jsonData = None \<longrightarrow>
        NewGasOptimizer scanInt env filePath = Inl (ASTParseFailed jsonData))
   \<and> (readFile env filePath = Some source \<and> runSolc env filePath = Some output
        \<and> findSubmatch env output = Some jsonData \<and> unmarshal env jsonData = Some ast \<longrightarrow>
        NewGasOptimizer scanInt env filePath =
          Inr \<lparr>GSource = source, AST = SolcAST ast, Reports = []\<rparr>)"
  by (simp add: NewGasOptimizer_def Analyze_eq)

theorem NewGasOptimizer_outcomes_witness:
  "readFile solcMissingEnv ''Example.sol'' = Some exampleSource
   \<and> runSolc solcMissingEnv ''Example.sol'' = None
   \<and> NewGasOptimizer scanDigits solcMissingEnv ''Example.sol'' =
       Inr \<lparr>GSource = exampleSource, AST = CustomAST (Node ''Root'' [] [readsLoopNode] 0),
            Reports = []\<rparr>
   \<and> Reports (Analyze id id
        \<lparr>GSource = exampleSource, AST = CustomAST (Node ''Root'' [] [readsLoopNode] 0),
         Reports = []\<rparr>) = [loopReport ''line 1'' (''a.b'', 2)]
   \<and> runSolc noTreeEnv ''Example.sol'' = Some ''Compiler run successful''
   \<and> findSubmatch noTreeEnv ''Compiler run successful'' = None
   \<and> NewGasOptimizer scanDigits noTreeEnv ''Example.sol'' = Inl (NoJSONFound ''Compiler run successful'')
   \<and> findSubmatch badTreeEnv ''JSON AST (compact format): {nodeType}'' = Some ''{nodeType}''
   \<and> unmarshal badTreeEnv ''{nodeType}'' = None
   \<and> NewGasOptimizer scanDigits badTreeEnv ''Example.sol'' = Inl (ASTParseFailed ''{nodeType}'')
   \<and> unmarshal goodTreeEnv ''{...}'' = Some readmeTree
   \<and> NewGasOptimizer scanDigits goodTreeEnv ''Example.sol'' =
       Inr \<lparr>GSource = exampleSource, AST = SolcAST readmeTree, Reports = []\<rparr>"
proof -
  have p: "fst (Parse (NewParser scanDigits exampleSource)) = Node ''Root'' [] [readsLoopNode] 0"
    by code_simp
  have q: "concat (map (customReportsAt id) [readsLoopNode]) = [loopReport ''line 1'' (''a.b'', 2)]"
    by code_simp
  have a1: "readFile solcMissingEnv ''Example.sol'' = Some exampleSource"
    and a2: "runSolc solcMissingEnv ''Example.sol'' = None"
    by (simp_all add: solcMissingEnv_def)
  have b1: "readFile noTreeEnv ''Example.sol'' = Some exampleSource"
    and b2: "runSolc noTreeEnv ''Example.sol'' = Some ''Compiler run successful''"
    and b3: "findSubmatch noTreeEnv ''Compiler run successful'' = None"
    by (simp_all add: noTreeEnv_def)
  have c1: "readFile badTreeEnv ''Example.sol'' = Some exampleSource"
    and c2: "runSolc badTreeEnv ''Example.sol'' = Some ''JSON AST (compact format): {nodeType}''"
    and c3: "findSubmatch badTreeEnv ''JSON AST (compact format): {nodeType}'' = Some ''{nodeType}''"
    and c4: "unmarshal badTreeEnv ''{nodeType}'' = None"
    by (simp_all add: badTreeEnv_def)
  have d1: "readFile goodTreeEnv ''Example.sol'' = Some exampleSource"
    and d2: "runSolc goodTreeEnv ''Example.sol'' = Some ''JSON AST (compact format): {...}''"
    and d3: "findSubmatch goodTreeEnv ''JSON AST (compact format): {...}'' = Some ''{...}''"
    and d4: "unmarshal goodTreeEnv ''{...}'' = Some readmeTree"
    by (simp_all add: goodTreeEnv_def)
  from a1 a2 NewGasOptimizer_outcomes [of solcMissingEnv "''Example.sol''" scanDigits exampleSource id id]
  have r1: "NewGasOptimizer scanDigits solcMissingEnv ''Example.sol'' =
          Inr \<lparr>GSource = exampleSource,
               AST = CustomAST (fst (Parse (NewParser scanDigits exampleSource))), Reports = []\<rparr>
        \<and> Reports (Analyze id id
             \<lparr>GSource = exampleSource,
              AST = CustomAST (fst (Parse (NewParser scanDigits exampleSource))), Reports = []\<rparr>) =
            concat (map (customReportsAt id)
              (Children (fst (Parse (NewParser scanDigits exampleSource)))))"
    by blast
  from b1 b2 b3 NewGasOptimizer_outcomes [of noTreeEnv "''Example.sol''" scanDigits exampleSource
      id id "''Compiler run successful''"]
  have r2: "NewGasOptimizer scanDigits noTreeEnv ''Example.sol'' = Inl (NoJSONFound ''Compiler run successful'')"
    by blast
  from c1 c2 c3 c4 NewGasOptimizer_outcomes [of badTreeEnv "''Example.sol''" scanDigits exampleSource
      id id "''JSON AST (compact format): {nodeType}''" "''{nodeType}''"]
  have r3: "NewGasOptimizer scanDigits badTreeEnv ''Example.sol'' = Inl (ASTParseFailed ''{nodeType}'')"
    by blast
  from d1 d2 d3 d4 NewGasOptimizer_outcomes [of goodTreeEnv "''Example.sol''" scanDigits exampleSource
      id id "''JSON AST (compact format): {...}''" "''{...}''" readmeTree]
  have r4: "NewGasOptimizer scanDigits goodTreeEnv ''Example.sol'' =
       Inr \<lparr>GSource = exampleSource, AST = SolcAST readmeTree, Reports = []\<rparr>"
    by blast
  from r1 have r1a: "NewGasOptimizer scanDigits solcMissingEnv ''Example.sol'' =
       Inr \<lparr>GSource = exampleSource, AST = CustomAST (Node ''Root'' [] [readsLoopNode] 0),
            Reports = []\<rparr>"
    and r1b: "Reports (Analyze id id
        \<lparr>GSource = exampleSource, AST = CustomAST (Node ''Root'' [] [readsLoopNode] 0),
         Reports = []\<rparr>) = [loopReport ''line 1'' (''a.b'', 2)]"
    by (simp_all only: p q Node.sel)
  from a1 a2 r1a r1b b2 b3 r2 c3 c4 r3 d4 r4 show ?thesis by blast
qed

section \<open>The lexer and two-character operators\<close>

lemma byteString_not_plusplus: "byteString c \<noteq> ''++''"
proof (cases "(of_char c :: nat) < 128")
  case True
  then show ?thesis by (simp add: byteString_def)
next
  case False
  let ?m = "(of_char c :: nat) div 64"
  have "(of_char c :: nat) < 256" by simp
  then have "?m < 4" by arith
  then have lt: "192 + ?m < 256" by simp
  have "(char_of (192 + ?m) :: char) \<noteq> CHR ''+''"
  proof
    assume e: "(char_of (192 + ?m) :: char) = CHR ''+''"
    have "(of_char (char_of (192 + ?m) :: char) :: nat) = 192 + ?m" using lt by simp
    with e have "(of_char (CHR ''+'') :: nat) = 192 + ?m" by simp
    then show False by simp
  qed
  then show ?thesis using False by (simp add: byteString_def)
qed

lemma operator_symbol:
  "byteString c \<in> set operators \<Longrightarrow> byteString c \<in> {''='', ''.'', '';'', ''<''}"
  using byteString_not_plusplus [of c] by (auto simp: operators_def)

text \<open>The texts of the Operator tokens of a stream.\<close>

definition operatorTexts :: "Token list \<Rightarrow> string set" where
  "operatorTexts ts = Value ` {t \<in> set ts. Type t = TokenOperator}"

lemma operatorTexts_append [simp]: "operatorTexts (xs @ ys) = operatorTexts xs \<union> operatorTexts ys"
  by (auto simp: operatorTexts_def)

lemma operatorTexts_Nil [simp]: "operatorTexts [] = {}"
  by (simp add: operatorTexts_def)

lemma operatorTexts_classify [simp]: "operatorTexts [classifyToken scanInt v ln kws] = {}"
  by (simp add: operatorTexts_def classifyToken_def)

lemma operatorTexts_flush [simp]: "operatorTexts (fst (flush scanInt ln st)) = operatorTexts (fst st)"
  by (cases st) (simp add: flush_def)

lemma operatorTexts_scanLine:
  "operatorTexts (fst st) \<subseteq> {''='', ''.'', '';'', ''<''} \<Longrightarrow>
   operatorTexts (fst (scanLine scanInt ln line st)) \<subseteq> {''='', ''.'', '';'', ''<''}"
proof (induction line arbitrary: st)
  case Nil
  then show ?case by simp
next
  case (Cons c cs)
  let ?ok = "{''='', ''.'', '';'', ''<''}"
  show ?case
  proof (cases "byteString c = '' '' \<or> byteString c = [CHR 0x09]")
    case True
    have "operatorTexts (fst (scanLine scanInt ln cs (flush scanInt ln st))) \<subseteq> ?ok"
      by (rule Cons.IH) (simp add: Cons.prems)
    then show ?thesis using True by (simp add: Let_def)
  next
    case False
    show ?thesis
    proof (cases "byteString c \<in> set operators \<or> byteString c \<in> set punctuation")
      case True
      let ?tok = "\<lparr>Type = (if byteString c \<in> set punctuation then TokenPunctuation else TokenOperator),
                    Value = byteString c, Line = ln\<rparr>"
      have "operatorTexts [?tok] \<subseteq> ?ok"
        using True operator_symbol [of c] by (auto simp: operatorTexts_def)
      then have "operatorTexts (fst (fst (flush scanInt ln st) @ [?tok], [] :: string)) \<subseteq> ?ok"
        using Cons.prems by simp
      then have "operatorTexts (fst (scanLine scanInt ln cs (fst (flush scanInt ln st) @ [?tok], []))) \<subseteq> ?ok"
        by (rule Cons.IH)
      then show ?thesis using True False by (simp add: Let_def)
    next
      case nosym: False
      have "operatorTexts (fst (scanLine scanInt ln cs (fst st, snd st @ byteString c))) \<subseteq> ?ok"
        by (rule Cons.IH) (simp add: Cons.prems)
      then show ?thesis using False nosym by (simp add: Let_def)
    qed
  qed
qed

lemma operatorTexts_tokenizeLines:
  "operatorTexts tokens \<subseteq> {''='', ''.'', '';'', ''<''} \<Longrightarrow>
   operatorTexts (tokenizeLines scanInt lineNum ls tokens) \<subseteq> {''='', ''.'', '';'', ''<''}"
proof (induction ls arbitrary: lineNum tokens)
  case Nil
  then show ?case by simp
next
  case (Cons l ls)
  have "operatorTexts (fst (scanLine scanInt (lineNum + 1) (TrimSpace l) (tokens, [])))
      \<subseteq> {''='', ''.'', '';'', ''<''}"
    by (rule operatorTexts_scanLine) (simp add: Cons.prems)
  then have "operatorTexts (tokenizeLines scanInt (lineNum + 1) ls
      (fst (flush scanInt (lineNum + 1) (scanLine scanInt (lineNum + 1) (TrimSpace l) (tokens, [])))))
      \<subseteq> {''='', ''.'', '';'', ''<''}"
    by (intro Cons.IH) simp
  moreover have "operatorTexts (tokenizeLines scanInt (lineNum + 1) ls tokens) \<subseteq> {''='', ''.'', '';'', ''<''}"
    by (rule Cons.IH) (rule Cons.prems)
  ultimately show ?case by (simp add: Let_def)
qed

lemma operatorTexts_tokenize:
  "operatorTexts (tokenize scanInt source) \<subseteq> {''='', ''.'', '';'', ''<''}"
  unfolding tokenize_def by (rule operatorTexts_tokenizeLines) simp

text \<open>
  Claim C4: operator symbols are matched by maximal munch, so that a two-character
  operator such as \<open>++\<close> comes out as one Operator token, never split and never taken
  into a neighbouring identifier.

  The table \<open>operators\<close> lists \<open>++\<close>, but \<open>tokenize\<close> looks up one byte at a time and \<open>+\<close>
  alone is in no table. On every source text the Operator tokens carry one of the four
  one-character symbols, never \<open>++\<close>. The text \<open>i++\<close> is one token that \<open>classifyToken\<close>
  makes a keyword, a number or an identifier, and so is a \<open>++\<close> standing between blanks:
  whatever the integer scan answers, neither token is an Operator.
\<close>

theorem tokenize_plusplus_not_operator:
  "''++'' \<in> set operators
   \<and> operatorTexts (tokenize scanInt source) \<subseteq> {''='', ''.'', '';'', ''<''}
   \<and> tokenize scanInt ''i++'' = [classifyToken scanInt ''i++'' 1 keywordsTable]
   \<and> Type (classifyToken scanInt ''i++'' 1 keywordsTable) \<noteq> TokenOperator
   \<and> tokenize scanInt ''a ++ b'' =
       [classifyToken scanInt ''a'' 1 keywordsTable,
        classifyToken scanInt ''++'' 1 keywordsTable,
        classifyToken scanInt ''b'' 1 keywordsTable]
   \<and> Type (classifyToken scanInt ''++'' 1 keywordsTable) \<noteq> TokenOperator"
proof -
  have a: "''++'' \<in> set operators" by (simp add: operators_def)
  have b: "tokenize scanInt ''i++'' = [classifyToken scanInt ''i++'' 1 keywordsTable]"
    by code_simp
  have c: "Type (classifyToken scanInt v 1 keywordsTable) \<noteq> TokenOperator" for v
    by (simp add: classifyToken_def)
  have d: "tokenize scanInt ''a ++ b'' =
       [classifyToken scanInt ''a'' 1 keywordsTable,
        classifyToken scanInt ''++'' 1 keywordsTable,
        classifyToken scanInt ''b'' 1 keywordsTable]"
    by code_simp
  note e = operatorTexts_tokenize [of scanInt source]
  from a b c d e show ?thesis by blast
qed

end
